theory Spec2Isabelle
  imports Complex_Main "HOL-Library.Multiset" "HOL-Library.Sublist" "HOL-Library.Char_ord"
    "HOL-Library.List_Lexorder"
begin

section \<open>Attribute paths and their rendering\<close>

text \<open>
  A \<open>cty.Number\<close> holds a \<open>*big.Float\<close>: a finite number or one of the two
  infinities. Finite values are modelled as rationals.
\<close>

datatype bigFloat = Finite rat | PosInf | NegInf

datatype accuracy = Below | Exact | Above

text \<open>
  The index key of a path step is a \<open>cty.Value\<close>. Only what \<open>AsBigFloat\<close>
  distinguishes is kept: a known, non-null number, or anything else.
\<close>

datatype ctyValue =
    NumberVal bigFloat
  | StringVal string
  | BoolVal bool
  | NullVal
  | UnknownVal

datatype pathStep = GetAttrStep string | IndexStep ctyValue

type_synonym ctyPath = "pathStep list"

datatype panic = Panic string

text \<open>
  \<open>Value.AsBigFloat\<close> of go-cty panics unless the value is a known, non-null number.
\<close>

fun AsBigFloat :: "ctyValue \<Rightarrow> panic + bigFloat" where
  "AsBigFloat (NumberVal f) = Inr f"
| "AsBigFloat (StringVal s) = Inl (Panic ''not a number'')"
| "AsBigFloat (BoolVal b) = Inl (Panic ''not a number'')"
| "AsBigFloat NullVal = Inl (Panic ''value is null'')"
| "AsBigFloat UnknownVal = Inl (Panic ''value is not known'')"

definition MinInt64 :: int where
  "MinInt64 = - (2 ^ 63)"

definition MaxInt64 :: int where
  "MaxInt64 = 2 ^ 63 - 1"

text \<open>Truncation of a rational towards zero.\<close>

definition truncateToZero :: "rat \<Rightarrow> int" where
  "truncateToZero q = (if 0 \<le> q then \<lfloor>q\<rfloor> else \<lceil>q\<rceil>)"

text \<open>
  \<open>big.Float.Int64\<close>: the integer obtained by truncating towards zero and the
  accuracy of that result; values outside the range of \<open>int64\<close> give the nearest bound.
\<close>

fun Int64 :: "bigFloat \<Rightarrow> int \<times> accuracy" where
  "Int64 (Finite q) =
     (if q < of_int MinInt64 then (MinInt64, Above)
      else if of_int MaxInt64 < q then (MaxInt64, Below)
      else if of_int (truncateToZero q) = q then (truncateToZero q, Exact)
      else if q < 0 then (truncateToZero q, Above)
      else (truncateToZero q, Below))"
| "Int64 PosInf = (MaxInt64, Below)"
| "Int64 NegInf = (MinInt64, Above)"

text \<open>\<open>strconv.Itoa\<close>: the decimal rendering of an integer.\<close>

definition digit :: "nat \<Rightarrow> char" where
  "digit d = ''0123456789'' ! d"

function natDigits :: "nat \<Rightarrow> string" where
  "natDigits n = (if n < 10 then [digit n] else natDigits (n div 10) @ [digit (n mod 10)])"
  by pat_completeness auto
termination
  by (relation "measure (\<lambda>n. n)") auto

declare natDigits.simps [simp del]

definition Itoa :: "int \<Rightarrow> string" where
  "Itoa i = (if i < 0 then CHR ''-'' # natDigits (nat (- i)) else natDigits (nat i))"

text \<open>
  \<open>formatPath\<close> ranges over the steps with their index \<open>i\<close>, appending to a string
  builder. \<open>int\<close> is taken to be 64 bits wide, so that \<open>int(val)\<close> keeps the value.
\<close>

fun formatPath_loop :: "nat \<Rightarrow> ctyPath \<Rightarrow> string \<Rightarrow> panic + string" where
  "formatPath_loop i [] sb = Inr sb"
| "formatPath_loop i (GetAttrStep nm # rest) sb =
     formatPath_loop (Suc i) rest ((if 0 < i then sb @ ''.'' else sb) @ nm)"
| "formatPath_loop i (IndexStep key # rest) sb =
     (case AsBigFloat key of
        Inl e \<Rightarrow> Inl e
      | Inr f \<Rightarrow>
          (case Int64 f of
             (val, _) \<Rightarrow> formatPath_loop (Suc i) rest (sb @ ''['' @ Itoa val @ '']'')))"

definition formatPath :: "ctyPath \<Rightarrow> panic + string" where
  "formatPath path = formatPath_loop 0 path []"


text \<open>The paths whose index steps all have a number as key.\<close>

definition isNumber :: "ctyValue \<Rightarrow> bool" where
  "isNumber v = (case v of NumberVal f \<Rightarrow> True | _ \<Rightarrow> False)"

definition numericKeys :: "ctyPath \<Rightarrow> bool" where
  "numericKeys path =
     list_all (\<lambda>st. case st of GetAttrStep nm \<Rightarrow> True | IndexStep key \<Rightarrow> isNumber key) path"

text \<open>
  The rendering of a path put in words, to compare \<open>formatPath\<close> with: a number
  is written as its value truncated towards zero when that lies in the range of
  \<open>int64\<close>, and as the nearest bound of the range otherwise; an attribute name is
  written after a dot unless it is the first step.
\<close>

fun clampedInt :: "bigFloat \<Rightarrow> int" where
  "clampedInt (Finite q) = max MinInt64 (min MaxInt64 (truncateToZero q))"
| "clampedInt PosInf = MaxInt64"
| "clampedInt NegInf = MinInt64"

fun renderSteps :: "bool \<Rightarrow> ctyPath \<Rightarrow> string" where
  "renderSteps first [] = []"
| "renderSteps first (GetAttrStep nm # rest) =
     (if first then nm else ''.'' @ nm) @ renderSteps False rest"
| "renderSteps first (IndexStep key # rest) =
     (case key of NumberVal f \<Rightarrow> ''['' @ Itoa (clampedInt f) @ '']'' | _ \<Rightarrow> [])
       @ renderSteps False rest"

definition renderPath :: "ctyPath \<Rightarrow> string" where
  "renderPath path = renderSteps True path"

section \<open>Test cases and their discovery\<close>

record testCase =
  dir :: string
  variableFile :: string
  specFile :: string

text \<open>
  \<open>os.FileInfo\<close>, as far as discovery reads it. \<open>ioutil.ReadDir\<close> returns the
  entries of a directory sorted by file name, or an error (\<open>None\<close>).
  \<open>filepath.Join\<close> and \<open>filepath.Base\<close> belong to the Go standard library and are
  parameters of the model.
\<close>

record fileInfo =
  Name :: string
  IsDir :: bool

record stdlib =
  Join :: "string \<Rightarrow> string \<Rightarrow> string"
  Base :: "string \<Rightarrow> string"
  ReadDir :: "string \<Rightarrow> fileInfo list option"

text \<open>
  \<open>filepath.Ext\<close> scans from the last byte backwards, stops at a path separator and
  returns the suffix that starts at the first dot it meets. The argument \<open>Suc i\<close> of
  the scan stands for the index \<open>i\<close>, the argument \<open>0\<close> for the end of the loop.
\<close>

fun Ext_scan :: "string \<Rightarrow> nat \<Rightarrow> string" where
  "Ext_scan path 0 = []"
| "Ext_scan path (Suc i) =
     (if path ! i = CHR ''/'' then []
      else if path ! i = CHR ''.'' then drop i path
      else Ext_scan path i)"

definition Ext :: "string \<Rightarrow> string" where
  "Ext path = Ext_scan path (length path)"

definition testCase_name :: "stdlib \<Rightarrow> testCase \<Rightarrow> string" where
  "testCase_name lib tc = Base lib (dir tc)"

text \<open>The loop of \<open>findCase\<close> over the directory entries; the state is the pair of \<open>varFile\<close> and \<open>specFile\<close>.\<close>

fun findCase_loop :: "stdlib \<Rightarrow> string \<Rightarrow> fileInfo list \<Rightarrow> string \<times> string \<Rightarrow> string \<times> string" where
  "findCase_loop lib rootDir [] (varF, specF) = (varF, specF)"
| "findCase_loop lib rootDir (fi # fis) (varF, specF) =
     (if IsDir fi then findCase_loop lib rootDir fis (varF, specF)
      else
        let varF' = (if Ext (Name fi) = ''.tfvars'' then Join lib rootDir (Name fi) else varF);
            specF' = (if Ext (Name fi) = ''.tfspec'' then Join lib rootDir (Name fi) else specF)
        in findCase_loop lib rootDir fis (varF', specF'))"

definition findCase :: "stdlib \<Rightarrow> string \<Rightarrow> testCase option" where
  "findCase lib rootDir =
     (case ReadDir lib rootDir of
        None \<Rightarrow> None
      | Some fis \<Rightarrow>
          (case findCase_loop lib rootDir fis ([], []) of
             (varF, specF) \<Rightarrow>
               if specF \<noteq> []
               then Some \<lparr>dir = rootDir, variableFile = varF, specFile = specF\<rparr>
               else None))"

text \<open>The loop of \<open>findCases\<close> over the entries of the root directory.\<close>

fun findCases_loop :: "stdlib \<Rightarrow> string \<Rightarrow> fileInfo list \<Rightarrow> testCase list \<Rightarrow> testCase list" where
  "findCases_loop lib rootDir [] testCases = testCases"
| "findCases_loop lib rootDir (rootFi # rootFis) testCases =
     (if \<not> IsDir rootFi then findCases_loop lib rootDir rootFis testCases
      else
        (case findCase lib (Join lib rootDir (Name rootFi)) of
           Some tc \<Rightarrow> findCases_loop lib rootDir rootFis (testCases @ [tc])
         | None \<Rightarrow> findCases_loop lib rootDir rootFis testCases))"

datatype fatal = LogFatal string

text \<open>\<open>findCases\<close> ends the process through \<open>log.Fatal\<close> when the root cannot be read.\<close>

definition findCases :: "stdlib \<Rightarrow> string \<Rightarrow> fatal + testCase list" where
  "findCases lib rootDir =
     (case ReadDir lib rootDir of
        None \<Rightarrow> Inl (LogFatal ''ReadDir'')
      | Some rootFis \<Rightarrow>
          (let testCases = findCases_loop lib rootDir rootFis []
           in case findCase lib rootDir of
                Some tc \<Rightarrow> Inr (testCases @ [tc])
              | None \<Rightarrow> Inr testCases))"



text \<open>
  The names of the files with extension \<open>.tfspec\<close> and \<open>.tfvars\<close> in a directory
  listing, in the order of the listing; whether a directory directly contains a file with
  extension \<open>.tfspec\<close>; the immediate subdirectories of the root that do.
\<close>

definition specNames :: "fileInfo list \<Rightarrow> string list" where
  "specNames fis = map Name (filter (\<lambda>fi. \<not> IsDir fi \<and> Ext (Name fi) = ''.tfspec'') fis)"

definition varNames :: "fileInfo list \<Rightarrow> string list" where
  "varNames fis = map Name (filter (\<lambda>fi. \<not> IsDir fi \<and> Ext (Name fi) = ''.tfvars'') fis)"

definition hasSpec :: "stdlib \<Rightarrow> string \<Rightarrow> bool" where
  "hasSpec lib d = (case ReadDir lib d of None \<Rightarrow> False | Some fis \<Rightarrow> specNames fis \<noteq> [])"

definition subdirsWithSpec :: "stdlib \<Rightarrow> string \<Rightarrow> fileInfo list \<Rightarrow> string list" where
  "subdirsWithSpec lib rootDir rootFis =
     map (\<lambda>fi. Join lib rootDir (Name fi))
       (filter (\<lambda>fi. IsDir fi \<and> hasSpec lib (Join lib rootDir (Name fi))) rootFis)"

text \<open>
  What the model needs of \<open>filepath.Join\<close>: joined with a non-empty file name, the
  path is not empty.
\<close>

definition joinNonEmpty :: "stdlib \<Rightarrow> bool" where
  "joinNonEmpty lib = (\<forall>d n. n \<noteq> [] \<longrightarrow> Join lib d n \<noteq> [])"

section \<open>Diagnostics, reports and the planning engine\<close>

datatype severity = Error | Warning | Info

text \<open>
  A diagnostic, as far as the program reads it: its severity and detail, whether it is a
  \<open>*terraspec.TerraspecDiagnostic\<close>, and the attribute path that
  \<open>tfdiags.GetAttribute\<close> returns for it (\<open>None\<close> for nil).
\<close>

record diagnostic =
  Severity :: severity
  Detail :: string
  IsTerraspec :: bool
  Attribute :: "ctyPath option"

type_synonym diagnostics = "diagnostic list"

definition HasErrors :: "diagnostics \<Rightarrow> bool" where
  "HasErrors diags = list_ex (\<lambda>d. Severity d = Error) diags"

record testReport =
  name :: string
  plan :: string
  report :: diagnostics

text \<open>
  \<open>printDiags\<close> ranges over the diagnostics in order. For a terraspec diagnostic with
  an attribute path it prints the path that \<open>formatPath\<close> renders, so a panic of
  \<open>formatPath\<close> is a panic of \<open>printDiags\<close>. The model keeps the rendered paths, in
  the order they are printed, and leaves the rest of the text out.
\<close>

fun printDiags :: "diagnostics \<Rightarrow> panic + string list" where
  "printDiags [] = Inr []"
| "printDiags (diag # ctxDiags) =
     (if IsTerraspec diag then
        (case Attribute diag of
           Some path \<Rightarrow>
             (case formatPath path of
                Inl e \<Rightarrow> Inl e
              | Inr str \<Rightarrow>
                  (case printDiags ctxDiags of Inl e \<Rightarrow> Inl e | Inr out \<Rightarrow> Inr (str # out)))
         | None \<Rightarrow> printDiags ctxDiags)
      else printDiags ctxDiags)"

text \<open>
  The planning engine and the spec library are outside the program: their functions are
  parameters. \<open>'e\<close> is the state of the engine objects of one test case (the context
  options and the context built from them, which the calls share by reference),
  \<open>'s\<close> a parsed spec, \<open>'p\<close> a plan, \<open>'m\<close> a mocked data source. A call that may
  change the engine objects returns their new state. \<open>Validate\<close> returns \<open>Inl err\<close>
  for a non-nil error. \<open>LibNewContext\<close> is \<open>terraspec.NewContext\<close>, which only
  \<open>main.go\<close> calls.
\<close>

record ('e, 's, 'p, 'm) engine =
  NewContextOptions :: "string \<Rightarrow> string \<Rightarrow> 'e \<times> diagnostics"
  NewContext :: "'e \<Rightarrow> 'e \<times> diagnostics"
  LibNewContext :: "string \<Rightarrow> string \<Rightarrow> 'e \<times> diagnostics"
  ReadSpec :: "string \<Rightarrow> 'e \<Rightarrow> 's \<times> diagnostics"
  Mocks :: "'s \<Rightarrow> 'm list"
  InjectMockedData :: "'e \<Rightarrow> 'm list \<Rightarrow> 'e \<times> diagnostics"
  Refresh :: "'e \<Rightarrow> 'e \<times> diagnostics"
  Plan :: "'e \<Rightarrow> ('e \<times> 'p) \<times> diagnostics"
  RenderPlan :: "'p \<Rightarrow> 'e \<Rightarrow> string"
  Validate :: "'s \<Rightarrow> 'p \<Rightarrow> string + diagnostics"

text \<open>
  The calls a test case makes into the engine, with the engine state they are made on.
  A run of \<open>runTestCase\<close> is logged as the list of its calls, each with what it
  returned: \<open>Inr\<close> the diagnostics, or \<open>Inl\<close> the non-nil error of \<open>Validate\<close>.
\<close>

datatype ('e, 'm) call =
    NewContextOptionsCall
  | NewContextCall 'e
  | LibNewContextCall
  | ReadSpecCall 'e
  | InjectMockedDataCall 'e "'m list"
  | RefreshCall 'e
  | PlanCall 'e
  | ValidateCall

type_synonym ('e, 'm) trace = "(('e, 'm) call \<times> (string + diagnostics)) list"

text \<open>
  What a test case's goroutine does at the end of \<open>runTestCase\<close>: it sends one report
  on the channel, or it ends the whole process through \<open>log.Fatal\<close>.
\<close>

datatype outcome = Reported testReport | Fatal string

text \<open>
  \<open>fatalReport\<close>: \<open>Some r\<close> stands for sending \<open>r\<close> on the channel and returning
  true, \<open>None\<close> for returning false.
\<close>

definition fatalReport :: "string \<Rightarrow> diagnostics \<Rightarrow> string \<Rightarrow> testReport option" where
  "fatalReport nm err pl =
     (if HasErrors err then Some \<lparr>name = nm, plan = pl, report = err\<rparr> else None)"

definition logged ::
  "('e, 'm) call \<Rightarrow> string + diagnostics \<Rightarrow> ('e, 'm) trace \<times> outcome \<Rightarrow> ('e, 'm) trace \<times> outcome" where
  "logged c res rest = ((c, res) # fst rest, snd rest)"

text \<open>
  \<open>runTestCase\<close> of the program with mocked data sources, in two parts: the
  statements from the refresh to the end, and the whole function, which reaches them
  with the engine state left by the mock injection, if there was one.
\<close>

definition runTestCase_refresh ::
  "stdlib \<Rightarrow> ('e, 's, 'p, 'm) engine \<Rightarrow> bool \<Rightarrow> testCase \<Rightarrow> 's \<Rightarrow> 'e \<Rightarrow> ('e, 'm) trace \<times> outcome" where
  "runTestCase_refresh lib eng displayPlan tc spec tfCtx =
     (let planOutput = [] in
      case Refresh eng tfCtx of (tfCtx', ctxDiags) \<Rightarrow>
      logged (RefreshCall tfCtx) (Inr ctxDiags)
      (case fatalReport (testCase_name lib tc) ctxDiags planOutput of
         Some r \<Rightarrow> ([], Reported r)
       | None \<Rightarrow>
      case Plan eng tfCtx' of ((tfCtx'', pln), ctxDiags) \<Rightarrow>
      logged (PlanCall tfCtx') (Inr ctxDiags)
      (case fatalReport (testCase_name lib tc) ctxDiags planOutput of
         Some r \<Rightarrow> ([], Reported r)
       | None \<Rightarrow>
      (let planOutput = (if displayPlan then RenderPlan eng pln tfCtx'' else planOutput) in
       case Validate eng spec pln of
         Inl err \<Rightarrow> logged ValidateCall (Inl err) ([], Fatal err)
       | Inr ctxDiags \<Rightarrow>
           logged ValidateCall (Inr ctxDiags)
             ([], Reported \<lparr>name = testCase_name lib tc, plan = planOutput, report = ctxDiags\<rparr>)))))"

definition runTestCase ::
  "stdlib \<Rightarrow> ('e, 's, 'p, 'm) engine \<Rightarrow> bool \<Rightarrow> testCase \<Rightarrow> ('e, 'm) trace \<times> outcome" where
  "runTestCase lib eng displayPlan tc =
     (let planOutput = [] in
      case NewContextOptions eng ''.'' (variableFile tc) of (tfOptions, ctxDiags) \<Rightarrow>
      logged NewContextOptionsCall (Inr ctxDiags)
      (case fatalReport (testCase_name lib tc) ctxDiags planOutput of
         Some r \<Rightarrow> ([], Reported r)
       | None \<Rightarrow>
      case NewContext eng tfOptions of (tfCtx, ctxDiags) \<Rightarrow>
      logged (NewContextCall tfOptions) (Inr ctxDiags)
      (case fatalReport (testCase_name lib tc) ctxDiags planOutput of
         Some r \<Rightarrow> ([], Reported r)
       | None \<Rightarrow>
      case ReadSpec eng (specFile tc) tfCtx of (spec, ctxDiags) \<Rightarrow>
      logged (ReadSpecCall tfCtx) (Inr ctxDiags)
      (case fatalReport (testCase_name lib tc) ctxDiags planOutput of
         Some r \<Rightarrow> ([], Reported r)
       | None \<Rightarrow>
      if 0 < length (Mocks eng spec) then
        (case InjectMockedData eng tfCtx (Mocks eng spec) of (tfCtx', ctxDiags) \<Rightarrow>
         logged (InjectMockedDataCall tfCtx (Mocks eng spec)) (Inr ctxDiags)
         (case fatalReport (testCase_name lib tc) ctxDiags planOutput of
            Some r \<Rightarrow> ([], Reported r)
          | None \<Rightarrow> runTestCase_refresh lib eng displayPlan tc spec tfCtx'))
      else runTestCase_refresh lib eng displayPlan tc spec tfCtx))))"

text \<open>\<open>runTestCase\<close> of \<open>main.go\<close>, the program without mocked data sources.\<close>

definition runTestCase_main_go ::
  "stdlib \<Rightarrow> ('e, 's, 'p, 'm) engine \<Rightarrow> bool \<Rightarrow> testCase \<Rightarrow> ('e, 'm) trace \<times> outcome" where
  "runTestCase_main_go lib eng displayPlan tc =
     (let planOutput = [] in
      case LibNewContext eng ''.'' (variableFile tc) of (tfCtx, ctxDiags) \<Rightarrow>
      logged LibNewContextCall (Inr ctxDiags)
      (case fatalReport (testCase_name lib tc) ctxDiags planOutput of
         Some r \<Rightarrow> ([], Reported r)
       | None \<Rightarrow>
      case Plan eng tfCtx of ((tfCtx', pln), ctxDiags) \<Rightarrow>
      logged (PlanCall tfCtx) (Inr ctxDiags)
      (case fatalReport (testCase_name lib tc) ctxDiags planOutput of
         Some r \<Rightarrow> ([], Reported r)
       | None \<Rightarrow>
      (let planOutput = (if displayPlan then RenderPlan eng pln tfCtx' else planOutput) in
       case ReadSpec eng (specFile tc) tfCtx' of (spec, ctxDiags) \<Rightarrow>
       logged (ReadSpecCall tfCtx') (Inr ctxDiags)
       (case fatalReport (testCase_name lib tc) ctxDiags planOutput of
          Some r \<Rightarrow> ([], Reported r)
        | None \<Rightarrow>
       case Validate eng spec pln of
         Inl err \<Rightarrow> logged ValidateCall (Inl err) ([], Fatal err)
       | Inr ctxDiags \<Rightarrow>
           logged ValidateCall (Inr ctxDiags)
             ([], Reported \<lparr>name = testCase_name lib tc, plan = planOutput, report = ctxDiags\<rparr>))))))"

text \<open>
  The stages of the per-case state machine, and the stage each engine call belongs to.
  Configuration parse and context creation both belong to \<open>ConfigParsed\<close>.
\<close>

datatype stage = ConfigParsed | MockInjected | Refreshed | Planned | SpecParsed | Validated

fun stageOf :: "('e, 'm) call \<Rightarrow> stage" where
  "stageOf NewContextOptionsCall = ConfigParsed"
| "stageOf (NewContextCall e) = ConfigParsed"
| "stageOf LibNewContextCall = ConfigParsed"
| "stageOf (ReadSpecCall e) = SpecParsed"
| "stageOf (InjectMockedDataCall e ms) = MockInjected"
| "stageOf (RefreshCall e) = Refreshed"
| "stageOf (PlanCall e) = Planned"
| "stageOf ValidateCall = Validated"

definition stages :: "('e, 'm) trace \<Rightarrow> stage list" where
  "stages tr = map (\<lambda>ev. stageOf (fst ev)) tr"

text \<open>
  The order of the stages as the specification words it, as a rank:
  ConfigParsed, MockInjected, Refreshed, Planned, SpecParsed, Validated.
\<close>

fun statedRank :: "stage \<Rightarrow> nat" where
  "statedRank ConfigParsed = 1"
| "statedRank MockInjected = 2"
| "statedRank Refreshed = 3"
| "statedRank Planned = 4"
| "statedRank SpecParsed = 5"
| "statedRank Validated = 6"

definition inStatedOrder :: "stage list \<Rightarrow> bool" where
  "inStatedOrder ss = sorted (map statedRank ss)"

text \<open>The order of the stages in \<open>runTestCase\<close>; mock injection only with mocks.\<close>

definition pipeline :: "bool \<Rightarrow> stage list" where
  "pipeline hasMocks =
     [ConfigParsed, ConfigParsed, SpecParsed] @ (if hasMocks then [MockInjected] else [])
       @ [Refreshed, Planned, Validated]"

definition pipeline_main_go :: "stage list" where
  "pipeline_main_go = [ConfigParsed, Planned, SpecParsed, Validated]"


text \<open>No element that satisfies \<open>Q\<close> comes before the first one that satisfies \<open>P\<close>.\<close>

fun before :: "('a \<Rightarrow> bool) \<Rightarrow> ('a \<Rightarrow> bool) \<Rightarrow> 'a list \<Rightarrow> bool" where
  "before P Q [] = True"
| "before P Q (x # xs) = (if P x then True else \<not> Q x \<and> before P Q xs)"

text \<open>The spec that \<open>runTestCase\<close> parses, when it gets that far.\<close>

definition parsedSpec :: "('e, 's, 'p, 'm) engine \<Rightarrow> testCase \<Rightarrow> 's" where
  "parsedSpec eng tc =
     fst (ReadSpec eng (specFile tc)
       (fst (NewContext eng (fst (NewContextOptions eng ''.'' (variableFile tc))))))"

text \<open>What the goroutine of a test case does, without the log of its calls.\<close>

definition caseRun :: "stdlib \<Rightarrow> ('e, 's, 'p, 'm) engine \<Rightarrow> bool \<Rightarrow> testCase \<Rightarrow> outcome" where
  "caseRun lib eng displayPlan tc = snd (runTestCase lib eng displayPlan tc)"

section \<open>The concurrent run of the test cases\<close>

text \<open>
  \<open>main\<close> starts one goroutine per test case, a goroutine that waits for all of them
  and then closes the channel, and collects the reports from the unbuffered channel.
  The goroutine of a test case is \<open>Pending\<close> until \<open>runTestCase\<close> arrives at its
  send or at \<open>log.Fatal\<close>, then blocked in the send (\<open>Sending\<close>), then \<open>Sent\<close>
  until it has called \<open>wg.Done\<close>, then \<open>Finished\<close>.
\<close>

datatype phase = Pending | Sending testReport | Sent | Finished

text \<open>
  The process is running, or has ended: through \<open>os.Exit\<close> at the end of \<open>main\<close>,
  through \<open>log.Fatal\<close>, or by a panic.
\<close>

datatype status = Running | Exited int | Aborted string | Panicked string

datatype mainpc = Spawning | Collecting

text \<open>
  The state of the process; \<open>printed\<close> holds the reports \<open>main\<close> has received, in
  the order of their arrival.
\<close>

record system =
  todo :: "testCase list"
  tasks :: "(testCase \<times> phase) list"
  wg :: int
  mainAt :: mainpc
  chanClosed :: bool
  exitCode :: int
  printed :: "testReport list"
  status :: status

text \<open>
  One step of one goroutine; the label is the scheduler's choice.
  \<open>Spawn\<close>: \<open>main\<close> takes the next test case, \<open>wg.Add(1)\<close>, \<open>go\<close>.
  \<open>Collect\<close>: \<open>main\<close> leaves the first loop, sets \<open>exitCode\<close>, starts the closing
  goroutine and enters the \<open>range\<close> over the channel.
  \<open>Run i\<close>: goroutine \<open>i\<close> runs \<open>runTestCase\<close> up to its send or to \<open>log.Fatal\<close>;
  the engine objects of a test case are its own, so this is one step.
  \<open>Send i\<close>: the send of goroutine \<open>i\<close> meets the receive of \<open>main\<close>, which handles
  the report: it sets \<open>exitCode\<close> and prints the diagnostics, and a panic of
  \<open>printDiags\<close> ends the process; a send on a closed channel panics.
  \<open>Done i\<close>: goroutine \<open>i\<close> calls \<open>wg.Done\<close>, which panics on a negative counter.
  \<open>Close\<close>: \<open>wg.Wait\<close> has returned and the channel is closed.
  \<open>Exit\<close>: the \<open>range\<close> ends on the closed channel and \<open>main\<close> calls \<open>os.Exit\<close>.
  A step that is not enabled is \<open>None\<close>.
\<close>

datatype label = Spawn | Collect | Run nat | Send nat | Done nat | Close | Exit

fun step :: "(testCase \<Rightarrow> outcome) \<Rightarrow> label \<Rightarrow> system \<Rightarrow> system option" where
  "step run Spawn s =
     (if status s = Running \<and> mainAt s = Spawning then
        (case todo s of
           [] \<Rightarrow> None
         | tc # rest \<Rightarrow>
             Some (s\<lparr>todo := rest, tasks := tasks s @ [(tc, Pending)], wg := wg s + 1\<rparr>))
      else None)"
| "step run Collect s =
     (if status s = Running \<and> mainAt s = Spawning \<and> todo s = []
      then Some (s\<lparr>mainAt := Collecting, exitCode := 0\<rparr>)
      else None)"
| "step run (Run i) s =
     (if status s = Running \<and> i < length (tasks s) then
        (case tasks s ! i of
           (tc, Pending) \<Rightarrow>
             (case run tc of
                Reported r \<Rightarrow> Some (s\<lparr>tasks := (tasks s)[i := (tc, Sending r)]\<rparr>)
              | Fatal err \<Rightarrow> Some (s\<lparr>status := Aborted err\<rparr>))
         | (tc, _) \<Rightarrow> None)
      else None)"
| "step run (Send i) s =
     (if status s = Running \<and> i < length (tasks s) then
        (case tasks s ! i of
           (tc, Sending r) \<Rightarrow>
             if chanClosed s then Some (s\<lparr>status := Panicked ''send on closed channel''\<rparr>)
             else if mainAt s = Collecting then
               (case printDiags (report r) of
                  Inl (Panic msg) \<Rightarrow>
                    Some (s\<lparr>tasks := (tasks s)[i := (tc, Sent)],
                            exitCode := (if HasErrors (report r) then 1 else exitCode s),
                            printed := printed s @ [r],
                            status := Panicked msg\<rparr>)
                | Inr out \<Rightarrow>
                    Some (s\<lparr>tasks := (tasks s)[i := (tc, Sent)],
                            exitCode := (if HasErrors (report r) then 1 else exitCode s),
                            printed := printed s @ [r]\<rparr>))
             else None
         | (tc, _) \<Rightarrow> None)
      else None)"
| "step run (Done i) s =
     (if status s = Running \<and> i < length (tasks s) then
        (case tasks s ! i of
           (tc, Sent) \<Rightarrow>
             if wg s - 1 < 0 then Some (s\<lparr>status := Panicked ''negative WaitGroup counter''\<rparr>)
             else Some (s\<lparr>tasks := (tasks s)[i := (tc, Finished)], wg := wg s - 1\<rparr>)
         | (tc, _) \<Rightarrow> None)
      else None)"
| "step run Close s =
     (if status s = Running \<and> mainAt s = Collecting \<and> wg s = 0 \<and> \<not> chanClosed s
      then Some (s\<lparr>chanClosed := True\<rparr>)
      else None)"
| "step run Exit s =
     (if status s = Running \<and> mainAt s = Collecting \<and> chanClosed s
      then Some (s\<lparr>status := Exited (exitCode s)\<rparr>)
      else None)"

text \<open>A run under a schedule: the steps in the order the scheduler picks them.\<close>

fun exec :: "(testCase \<Rightarrow> outcome) \<Rightarrow> label list \<Rightarrow> system \<Rightarrow> system option" where
  "exec run [] s = Some s"
| "exec run (l # ls) s = (case step run l s of None \<Rightarrow> None | Some s' \<Rightarrow> exec run ls s')"

definition initial :: "testCase list \<Rightarrow> system" where
  "initial testCases =
     \<lparr>todo = testCases, tasks = [], wg = 0, mainAt = Spawning, chanClosed = False,
      exitCode = 0, printed = [], status = Running\<rparr>"

text \<open>
  \<open>main\<close> up to its first loop: discovery, and \<open>log.Fatal\<close> when there is no test
  case. Then the concurrent run under a schedule.
\<close>

definition main_start :: "stdlib \<Rightarrow> string \<Rightarrow> system" where
  "main_start lib specDir =
     (case findCases lib specDir of
        Inl (LogFatal err) \<Rightarrow> (initial [])\<lparr>status := Aborted err\<rparr>
      | Inr testCases \<Rightarrow>
          if length testCases = 0 then (initial [])\<lparr>status := Aborted ''No test case found''\<rparr>
          else initial testCases)"

definition main ::
  "stdlib \<Rightarrow> ('e, 's, 'p, 'm) engine \<Rightarrow> bool \<Rightarrow> string \<Rightarrow> label list \<Rightarrow> system option" where
  "main lib eng displayPlan specDir sched =
     exec (caseRun lib eng displayPlan) sched (main_start lib specDir)"

text \<open>
  The invariant of the concurrent run. A goroutine is unfinished until it has called
  \<open>wg.Done\<close>; its report is delivered once its send has met the receive.
\<close>

fun unfinished :: "testCase \<times> phase \<Rightarrow> bool" where
  "unfinished (tc, ph) = (ph \<noteq> Finished)"

fun delivered :: "testCase \<times> phase \<Rightarrow> bool" where
  "delivered (tc, ph) = (ph = Sent \<or> ph = Finished)"

fun okTask :: "(testCase \<Rightarrow> outcome) \<Rightarrow> testCase \<times> phase \<Rightarrow> bool" where
  "okTask run (tc, Pending) = True"
| "okTask run (tc, Sending r) = (run tc = Reported r)"
| "okTask run (tc, Sent) = (\<exists>r. run tc = Reported r)"
| "okTask run (tc, Finished) = (\<exists>r. run tc = Reported r)"

fun okStatus :: "(testCase \<Rightarrow> outcome) \<Rightarrow> testCase list \<Rightarrow> system \<Rightarrow> status \<Rightarrow> bool" where
  "okStatus run cs s Running = True"
| "okStatus run cs s (Exited c) = (chanClosed s \<and> c = exitCode s)"
| "okStatus run cs s (Aborted err) = (\<exists>tc \<in> set cs. run tc = Fatal err)"
| "okStatus run cs s (Panicked msg) =
     (\<exists>r \<in> set (printed s). printDiags (report r) = Inl (Panic msg))"

definition runInv :: "(testCase \<Rightarrow> outcome) \<Rightarrow> testCase list \<Rightarrow> system \<Rightarrow> bool" where
  "runInv run cs s \<longleftrightarrow>
     cs = map fst (tasks s) @ todo s
   \<and> wg s = int (size (filter_mset unfinished (mset (tasks s))))
   \<and> (mainAt s = Spawning \<longrightarrow>
        \<not> chanClosed s \<and> printed s = [] \<and> (\<forall>t \<in> set (tasks s). \<not> delivered t))
   \<and> (chanClosed s \<longrightarrow> mainAt s = Collecting \<and> (\<forall>t \<in> set (tasks s). \<not> unfinished t))
   \<and> (mainAt s = Collecting \<longrightarrow>
        todo s = []
        \<and> exitCode s = (if \<exists>r \<in> set (printed s). HasErrors (report r) then 1 else 0))
   \<and> (\<forall>t \<in> set (tasks s). okTask run t)
   \<and> image_mset Reported (mset (printed s)) =
       image_mset (\<lambda>t. run (fst t)) (filter_mset delivered (mset (tasks s)))
   \<and> okStatus run cs s (status s)"

text \<open>The number of steps a run can still take, at most.\<close>

fun weight :: "phase \<Rightarrow> nat" where
  "weight Pending = 3"
| "weight (Sending r) = 2"
| "weight Sent = 1"
| "weight Finished = 0"

definition remaining :: "system \<Rightarrow> nat" where
  "remaining s =
     4 * length (todo s) + sum_list (map (\<lambda>t. weight (snd t)) (tasks s))
       + (if mainAt s = Spawning then 1 else 0) + (if chanClosed s then 0 else 1)
       + (if status s = Running then 1 else 0)"

section \<open>Mocked data sources\<close>

record 'v mockedDataSource =
  mockType :: string
  mockName :: string
  mockResult :: 'v

type_synonym 'v registry = "string \<times> string \<Rightarrow> 'v option"

definition mockAddr :: "'v mockedDataSource \<Rightarrow> string \<times> string" where
  "mockAddr m = (mockType m, mockName m)"

text \<open>
  Modelled from the spec: \<open>InjectMockedData\<close> of package \<open>lib\<close> is not among the
  sources. It registers the value of each mocked data source as the result the engine
  must return for that data-source type and name; a later entry for the same type and
  name replaces an earlier one.
\<close>

definition InjectMockedData_spec :: "'v registry \<Rightarrow> 'v mockedDataSource list \<Rightarrow> 'v registry" where
  "InjectMockedData_spec reg mocks = fold (\<lambda>m r. r(mockAddr m \<mapsto> mockResult m)) mocks reg"

text \<open>
  Modelled from the spec: the read of a data source by the engine, which returns the
  registered result instead of performing the real external lookup.
\<close>

definition readDataSource :: "'v registry \<Rightarrow> (string \<times> string \<Rightarrow> 'v) \<Rightarrow> string \<times> string \<Rightarrow> 'v" where
  "readDataSource reg externalLookup addr =
     (case reg addr of Some v \<Rightarrow> v | None \<Rightarrow> externalLookup addr)"

text \<open>
  An engine injects as specified when \<open>InjectMockedData\<close> changes the registry of the
  engine state, read through \<open>registryOf\<close>, as \<open>InjectMockedData_spec\<close> does.
\<close>

definition injectsAsSpecified ::
  "('e \<Rightarrow> 'v registry) \<Rightarrow> ('e, 's, 'p, 'v mockedDataSource) engine \<Rightarrow> bool" where
  "injectsAsSpecified registryOf eng =
     (\<forall>e ms. registryOf (fst (InjectMockedData eng e ms)) = InjectMockedData_spec (registryOf e) ms)"

section \<open>A sample tree of scenarios and a sample engine\<close>

text \<open>
  The directory \<open>spec\<close> holds the scenarios \<open>a\<close> (one mocked data source, a variables
  file), \<open>b\<close> (no spec file) and \<open>broken\<close> (its plan fails), and two spec files of its
  own. The directory \<open>bad\<close> holds the scenario \<open>ok\<close> and a spec file of its own, whose
  validation returns an error.
\<close>

definition sampleLib :: stdlib where
  "sampleLib =
     \<lparr>Join = (\<lambda>d n. d @ ''/'' @ n),
      Base = (\<lambda>d. rev (takeWhile (\<lambda>c. c \<noteq> CHR ''/'') (rev d))),
      ReadDir = (\<lambda>d.
        if d = ''spec'' then
          Some [\<lparr>Name = ''a'', IsDir = True\<rparr>, \<lparr>Name = ''b'', IsDir = True\<rparr>,
                \<lparr>Name = ''broken'', IsDir = True\<rparr>,
                \<lparr>Name = ''x.tfspec'', IsDir = False\<rparr>, \<lparr>Name = ''y.tfspec'', IsDir = False\<rparr>]
        else if d = ''spec/a'' then
          Some [\<lparr>Name = ''t.tfspec'', IsDir = False\<rparr>, \<lparr>Name = ''v.tfvars'', IsDir = False\<rparr>]
        else if d = ''spec/b'' then Some [\<lparr>Name = ''readme.md'', IsDir = False\<rparr>]
        else if d = ''spec/broken'' then
          Some [\<lparr>Name = ''bad.tfvars'', IsDir = False\<rparr>, \<lparr>Name = ''t.tfspec'', IsDir = False\<rparr>]
        else if d = ''bad'' then
          Some [\<lparr>Name = ''ok'', IsDir = True\<rparr>, \<lparr>Name = ''t.tfspec'', IsDir = False\<rparr>]
        else if d = ''bad/ok'' then Some [\<lparr>Name = ''t.tfspec'', IsDir = False\<rparr>]
        else None)\<rparr>"

definition sampleMock :: "string mockedDataSource" where
  "sampleMock = \<lparr>mockType = ''aws_ami'', mockName = ''ubuntu'', mockResult = ''ami-123''\<rparr>"

definition planFailed :: diagnostic where
  "planFailed =
     \<lparr>Severity = Error, Detail = ''plan failed'', IsTerraspec = False, Attribute = None\<rparr>"

definition matched :: diagnostic where
  "matched =
     \<lparr>Severity = Info, Detail = ''ok'', IsTerraspec = True,
      Attribute = Some [GetAttrStep ''ami'']\<rparr>"

text \<open>A mismatch at the key \<open>env\<close> of the map \<open>tags\<close>: the index key is a string.\<close>

definition mismatchAtMapKey :: diagnostic where
  "mismatchAtMapKey =
     \<lparr>Severity = Error, Detail = ''expected prod'', IsTerraspec = True,
      Attribute = Some [GetAttrStep ''tags'', IndexStep (StringVal ''env'')]\<rparr>"

definition sampleEngine ::
  "(string \<times> string registry, string \<times> string mockedDataSource list, string,
    string mockedDataSource) engine" where
  "sampleEngine =
     \<lparr>NewContextOptions = (\<lambda>d v. ((v, Map.empty), [])),
      NewContext = (\<lambda>e. (e, [])),
      LibNewContext = (\<lambda>d v. ((v, Map.empty), [])),
      ReadSpec = (\<lambda>f e. ((f, if f = ''spec/a/t.tfspec'' then [sampleMock] else []), [])),
      Mocks = snd,
      InjectMockedData = (\<lambda>e ms. ((fst e, InjectMockedData_spec (snd e) ms), [])),
      Refresh = (\<lambda>e. (e, [])),
      Plan = (\<lambda>e. ((e, ''plan''), if fst e = ''spec/broken/bad.tfvars'' then [planFailed] else [])),
      RenderPlan = (\<lambda>p e. p),
      Validate = (\<lambda>s p. if fst s = ''bad/t.tfspec'' then Inl ''validation failed'' else Inr [matched])\<rparr>"

definition caseA :: testCase where
  "caseA = \<lparr>dir = ''spec/a'', variableFile = ''spec/a/v.tfvars'', specFile = ''spec/a/t.tfspec''\<rparr>"

definition caseBroken :: testCase where
  "caseBroken =
     \<lparr>dir = ''spec/broken'', variableFile = ''spec/broken/bad.tfvars'',
      specFile = ''spec/broken/t.tfspec''\<rparr>"

definition caseRoot :: testCase where
  "caseRoot = \<lparr>dir = ''spec'', variableFile = [], specFile = ''spec/y.tfspec''\<rparr>"

definition caseOk :: testCase where
  "caseOk = \<lparr>dir = ''bad/ok'', variableFile = [], specFile = ''bad/ok/t.tfspec''\<rparr>"

definition caseBad :: testCase where
  "caseBad = \<lparr>dir = ''bad'', variableFile = [], specFile = ''bad/t.tfspec''\<rparr>"

section \<open>Properties of the path rendering\<close>

lemma formatPath_loop_append:
  "formatPath_loop i (p @ q) sb =
     (case formatPath_loop i p sb of Inl e \<Rightarrow> Inl e | Inr s \<Rightarrow> formatPath_loop (i + length p) q s)"
proof (induction p arbitrary: i sb)
  case Nil
  show ?case by simp
next
  case (Cons st rest)
  show ?case
  proof (cases st)
    case (GetAttrStep nm)
    then show ?thesis using Cons.IH [of "Suc i"] by (simp split: sum.splits)
  next
    case (IndexStep key)
    then show ?thesis using Cons.IH [of "Suc i"]
      by (simp split: sum.splits prod.splits)
  qed
qed

text \<open>
  C7. The steps are written from left to right: an attribute step appends its name, after
  a dot unless it is the first step of the path; an index step with a number as key
  appends the integer in brackets, directly after what is already written. The path of
  attribute \<open>rule\<close>, index \<open>2\<close>, attribute \<open>tags\<close>, attribute \<open>env\<close> renders as
  \<open>rule[2].tags.env\<close>.
\<close>
theorem formatPath_renders_left_to_right:
  "formatPath [] = Inr []
   \<and> formatPath (p @ [GetAttrStep nm]) =
       (case formatPath p of Inl e \<Rightarrow> Inl e
        | Inr s \<Rightarrow> Inr ((if p = [] then s else s @ ''.'') @ nm))
   \<and> formatPath (p @ [IndexStep (NumberVal f)]) =
       (case formatPath p of Inl e \<Rightarrow> Inl e
        | Inr s \<Rightarrow> Inr (s @ ''['' @ Itoa (fst (Int64 f)) @ '']''))
   \<and> formatPath [GetAttrStep ''rule'', IndexStep (NumberVal (Finite 2)),
         GetAttrStep ''tags'', GetAttrStep ''env''] = Inr ''rule[2].tags.env''"
proof (intro conjI)
  show "formatPath [] = Inr []" by (simp add: formatPath_def)
  show "formatPath (p @ [GetAttrStep nm]) =
       (case formatPath p of Inl e \<Rightarrow> Inl e
        | Inr s \<Rightarrow> Inr ((if p = [] then s else s @ ''.'') @ nm))"
    by (simp add: formatPath_def formatPath_loop_append split: sum.splits)
  show "formatPath (p @ [IndexStep (NumberVal f)]) =
       (case formatPath p of Inl e \<Rightarrow> Inl e
        | Inr s \<Rightarrow> Inr (s @ ''['' @ Itoa (fst (Int64 f)) @ '']''))"
    by (simp add: formatPath_def formatPath_loop_append split: sum.splits prod.splits)
  show "formatPath [GetAttrStep ''rule'', IndexStep (NumberVal (Finite 2)),
         GetAttrStep ''tags'', GetAttrStep ''env''] = Inr ''rule[2].tags.env''"
    by (simp add: formatPath_def Itoa_def natDigits.simps digit_def truncateToZero_def
        MinInt64_def MaxInt64_def)
qed

lemma formatPath_loop_total:
  "(\<exists>s. formatPath_loop i path sb = Inr s) \<longleftrightarrow> numericKeys path"
proof (induction path arbitrary: i sb)
  case Nil
  show ?case by (simp add: numericKeys_def)
next
  case (Cons st path)
  show ?case
  proof (cases st)
    case (GetAttrStep nm)
    then show ?thesis using Cons.IH [of "Suc i"] by (simp add: numericKeys_def)
  next
    case (IndexStep key)
    show ?thesis
    proof (cases key)
      case (NumberVal f)
      with IndexStep show ?thesis using Cons.IH [of "Suc i"]
        by (simp add: numericKeys_def isNumber_def split: prod.splits)
    qed (simp_all add: IndexStep numericKeys_def isNumber_def)
  qed
qed

lemma Int64_clamp:
  "fst (Int64 (Finite q)) = max MinInt64 (min MaxInt64 (truncateToZero q))"
proof -
  have lo: "q < of_int MinInt64 \<Longrightarrow> truncateToZero q \<le> MinInt64"
  proof -
    assume a: "q < of_int MinInt64"
    have "MinInt64 < 0" by (simp add: MinInt64_def)
    then have "q < 0" using a by (smt (verit) of_int_less_0_iff order_less_trans)
    then have "truncateToZero q = \<lceil>q\<rceil>" by (simp add: truncateToZero_def)
    moreover have "\<lceil>q\<rceil> \<le> MinInt64" using a by (simp add: ceiling_le_iff)
    ultimately show ?thesis by simp
  qed
  have hi: "of_int MaxInt64 < q \<Longrightarrow> MaxInt64 \<le> truncateToZero q"
  proof -
    assume a: "of_int MaxInt64 < q"
    have "0 < MaxInt64" by (simp add: MaxInt64_def)
    then have "0 < q" using a by (smt (verit) of_int_0_less_iff order_less_trans)
    then have "truncateToZero q = \<lfloor>q\<rfloor>" by (simp add: truncateToZero_def)
    moreover have "MaxInt64 \<le> \<lfloor>q\<rfloor>" using a by (simp add: le_floor_iff)
    ultimately show ?thesis by simp
  qed
  have mm: "MinInt64 < MaxInt64" by (simp add: MinInt64_def MaxInt64_def)
  have mid: "\<not> q < of_int MinInt64 \<Longrightarrow> \<not> of_int MaxInt64 < q \<Longrightarrow>
      MinInt64 \<le> truncateToZero q \<and> truncateToZero q \<le> MaxInt64"
  proof -
    assume a: "\<not> q < of_int MinInt64" and b: "\<not> of_int MaxInt64 < q"
    have 1: "of_int MinInt64 \<le> q" using a by simp
    have 2: "q \<le> of_int MaxInt64" using b by simp
    have 3: "MinInt64 \<le> \<lfloor>q\<rfloor>" using 1 by (simp add: le_floor_iff)
    have 4: "\<lceil>q\<rceil> \<le> MaxInt64" using 2 by (simp add: ceiling_le_iff)
    have 5: "\<lfloor>q\<rfloor> \<le> \<lceil>q\<rceil>" by (rule floor_le_ceiling)
    show ?thesis
    proof (cases "0 \<le> q")
      case True
      then have "truncateToZero q = \<lfloor>q\<rfloor>" by (simp add: truncateToZero_def)
      then show ?thesis using 3 4 5 by linarith
    next
      case False
      then have "truncateToZero q = \<lceil>q\<rceil>" by (simp add: truncateToZero_def)
      then show ?thesis using 3 4 5 by linarith
    qed
  qed
  show ?thesis using lo hi mid mm by (auto simp: max_def min_def)
qed

lemma Int64_clampedInt: "fst (Int64 f) = clampedInt f"
proof (cases f)
  case (Finite q)
  then show ?thesis by (simp add: Int64_clamp del: Int64.simps)
next
  case PosInf
  then show ?thesis by simp
next
  case NegInf
  then show ?thesis by simp
qed

lemma formatPath_loop_render:
  "numericKeys path \<Longrightarrow>
   formatPath_loop i path sb = Inr (sb @ renderSteps (i = 0) path)"
proof (induction path arbitrary: i sb)
  case Nil
  show ?case by simp
next
  case (Cons st rest)
  then have r: "numericKeys rest" by (simp add: numericKeys_def)
  show ?case
  proof (cases st)
    case (GetAttrStep nm)
    then show ?thesis using Cons.IH [OF r, of "Suc i"] by simp
  next
    case (IndexStep key)
    then obtain f where k: "key = NumberVal f"
      using Cons.prems by (cases key) (simp_all add: numericKeys_def isNumber_def)
    obtain val acc where v: "Int64 f = (val, acc)" by (cases "Int64 f")
    then have "val = clampedInt f" using Int64_clampedInt [of f] by simp
    then show ?thesis using IndexStep k v Cons.IH [OF r, of "Suc i"]
      by (simp del: Int64.simps)
  qed
qed

lemma clampedInt_cases:
  "(of_int MinInt64 \<le> q \<and> q \<le> of_int MaxInt64 \<longrightarrow> clampedInt (Finite q) = truncateToZero q)
   \<and> (q < of_int MinInt64 \<longrightarrow> clampedInt (Finite q) = MinInt64)
   \<and> (of_int MaxInt64 < q \<longrightarrow> clampedInt (Finite q) = MaxInt64)"
proof -
  have e: "clampedInt (Finite q) = fst (Int64 (Finite q))" by (simp only: Int64_clampedInt)
  have t: "of_int MinInt64 \<le> q \<Longrightarrow> q \<le> of_int MaxInt64 \<Longrightarrow>
      fst (Int64 (Finite q)) = truncateToZero q"
    by simp
  have l: "q < of_int MinInt64 \<Longrightarrow> fst (Int64 (Finite q)) = MinInt64" by simp
  have "MinInt64 < MaxInt64" by (simp add: MinInt64_def MaxInt64_def)
  then have "of_int MaxInt64 < q \<Longrightarrow> \<not> q < of_int MinInt64"
    by (smt (verit) of_int_less_iff order_less_trans order_less_asym)
  then have h: "of_int MaxInt64 < q \<Longrightarrow> fst (Int64 (Finite q)) = MaxInt64" by simp
  show ?thesis using e t l h by simp
qed

text \<open>
  C10, as stated, fails. The key \<open>18446744073709551616\<close> is a number, and its value
  truncated towards zero is itself, but the path renders it as
  \<open>[9223372036854775807]\<close>, the upper bound of \<open>int64\<close>.
\<close>
theorem truncated_key_counterexample:
  "numericKeys [IndexStep (NumberVal (Finite 18446744073709551616))]
   \<and> truncateToZero 18446744073709551616 = 18446744073709551616
   \<and> formatPath [IndexStep (NumberVal (Finite 18446744073709551616))] =
       Inr ''[9223372036854775807]''
   \<and> ''['' @ Itoa (truncateToZero 18446744073709551616) @ '']'' = ''[18446744073709551616]''"
proof (intro conjI)
  show "numericKeys [IndexStep (NumberVal (Finite 18446744073709551616))]"
    by (simp add: numericKeys_def isNumber_def)
  show t: "truncateToZero 18446744073709551616 = 18446744073709551616"
    by (simp add: truncateToZero_def)
  show "formatPath [IndexStep (NumberVal (Finite 18446744073709551616))] =
       Inr ''[9223372036854775807]''"
    by (simp add: formatPath_def MinInt64_def MaxInt64_def Itoa_def natDigits.simps digit_def)
  show "''['' @ Itoa (truncateToZero 18446744073709551616) @ '']'' = ''[18446744073709551616]''"
    by (simp add: t Itoa_def natDigits.simps digit_def)
qed

text \<open>
  C10, amended. \<open>formatPath\<close> returns a string exactly for the paths whose index keys
  are all numbers, and for every such path the string is the rendering of all its steps
  in order, each numeric key written as its value truncated towards zero when that lies
  in the range of \<open>int64\<close> and as the nearest bound of the range otherwise (also for
  an infinite key), the accuracy that \<open>Int64\<close> reports being dropped. A path with an
  index key that is not a number makes \<open>formatPath\<close> panic.
\<close>
theorem formatPath_renders_numeric_paths:
  "((\<exists>str. formatPath path = Inr str) \<longleftrightarrow> numericKeys path)
   \<and> (numericKeys path \<longrightarrow> formatPath path = Inr (renderPath path))
   \<and> (\<not> numericKeys path \<longrightarrow> (\<exists>e. formatPath path = Inl e))
   \<and> (of_int MinInt64 \<le> q \<and> q \<le> of_int MaxInt64 \<longrightarrow> clampedInt (Finite q) = truncateToZero q)
   \<and> (q < of_int MinInt64 \<longrightarrow> clampedInt (Finite q) = MinInt64)
   \<and> (of_int MaxInt64 < q \<longrightarrow> clampedInt (Finite q) = MaxInt64)"
proof -
  have 1: "(\<exists>str. formatPath path = Inr str) \<longleftrightarrow> numericKeys path"
    unfolding formatPath_def by (rule formatPath_loop_total)
  have 2: "numericKeys path \<longrightarrow> formatPath path = Inr (renderPath path)"
    by (simp add: formatPath_def renderPath_def formatPath_loop_render)
  have 3: "\<not> numericKeys path \<longrightarrow> (\<exists>e. formatPath path = Inl e)"
    using 1 by (cases "formatPath path") auto
  show ?thesis using 1 2 3 clampedInt_cases [of q] by blast
qed

theorem formatPath_renders_numeric_paths_witness:
  "numericKeys [GetAttrStep ''rule'', IndexStep (NumberVal (Finite (7 / 2))),
      GetAttrStep ''tags'', IndexStep (NumberVal (Finite (- 7 / 2))), IndexStep (NumberVal PosInf)]
   \<and> formatPath [GetAttrStep ''rule'', IndexStep (NumberVal (Finite (7 / 2))),
      GetAttrStep ''tags'', IndexStep (NumberVal (Finite (- 7 / 2))), IndexStep (NumberVal PosInf)]
       = Inr ''rule[3].tags[-3][9223372036854775807]''
   \<and> \<not> numericKeys [GetAttrStep ''rule'', IndexStep (StringVal ''k'')]
   \<and> (\<exists>e. formatPath [GetAttrStep ''rule'', IndexStep (StringVal ''k'')] = Inl e)
   \<and> rat_of_int MinInt64 \<le> 7 / 2 \<and> (7 / 2 :: rat) \<le> rat_of_int MaxInt64
   \<and> clampedInt (Finite (7 / 2)) = 3
   \<and> rat_of_int MaxInt64 < 18446744073709551616
   \<and> clampedInt (Finite 18446744073709551616) = MaxInt64
   \<and> - 18446744073709551616 < rat_of_int MinInt64
   \<and> clampedInt (Finite (- 18446744073709551616)) = MinInt64"
proof -
  let ?p = "[GetAttrStep ''rule'', IndexStep (NumberVal (Finite (7 / 2))),
      GetAttrStep ''tags'', IndexStep (NumberVal (Finite (- 7 / 2))), IndexStep (NumberVal PosInf)]"
  have n: "numericKeys ?p" by (simp add: numericKeys_def isNumber_def)
  have t: "truncateToZero (7 / 2) = 3" "truncateToZero (- (7 / 2)) = - 3" by code_simp+
  have c: "clampedInt (Finite (7 / 2)) = 3" "clampedInt (Finite (- (7 / 2))) = - 3"
      "clampedInt PosInf = 9223372036854775807"
    by (simp_all add: t MinInt64_def MaxInt64_def)
  have i: "Itoa 3 = ''3''" "Itoa (- 3) = ''-3''"
      "Itoa 9223372036854775807 = ''9223372036854775807''"
    by (simp_all add: Itoa_def natDigits.simps digit_def)
  have r: "renderPath ?p = ''rule[3].tags[-3][9223372036854775807]''"
    by (simp add: renderPath_def c i del: clampedInt.simps)
  have k: "\<not> numericKeys [GetAttrStep ''rule'', IndexStep (StringVal ''k'')]"
    by (simp add: numericKeys_def isNumber_def)
  have b: "rat_of_int MinInt64 \<le> 7 / 2 \<and> (7 / 2 :: rat) \<le> rat_of_int MaxInt64"
    by (simp add: MinInt64_def MaxInt64_def)
  note a = formatPath_renders_numeric_paths [of ?p "7 / 2"]
  note d = formatPath_renders_numeric_paths
    [of "[GetAttrStep ''rule'', IndexStep (StringVal ''k'')]" "7 / 2"]
  have hi: "rat_of_int MaxInt64 < 18446744073709551616" by (simp add: MaxInt64_def)
  have lo: "- 18446744073709551616 < rat_of_int MinInt64" by (simp add: MinInt64_def)
  note u = formatPath_renders_numeric_paths [of ?p "18446744073709551616"]
  note l = formatPath_renders_numeric_paths [of ?p "- 18446744073709551616"]
  have 1: "clampedInt (Finite 18446744073709551616) = MaxInt64" using u hi by blast
  have 2: "clampedInt (Finite (- 18446744073709551616)) = MinInt64" using l lo by blast
  have 3: "formatPath ?p = Inr ''rule[3].tags[-3][9223372036854775807]''"
    using a n r by simp
  have 4: "\<exists>e. formatPath [GetAttrStep ''rule'', IndexStep (StringVal ''k'')] = Inl e"
    using d k by blast
  show ?thesis using n k b c(1) hi lo 1 2 3 4 by blast
qed

section \<open>Properties of the discovery\<close>

lemma findCase_loop_last:
  "findCase_loop lib d fis (v, s) =
     ((if varNames fis = [] then v else Join lib d (last (varNames fis))),
      (if specNames fis = [] then s else Join lib d (last (specNames fis))))"
proof (induction fis arbitrary: v s)
  case Nil
  show ?case by (simp add: varNames_def specNames_def)
next
  case (Cons fi fis)
  show ?case
    using Cons.IH by (simp add: varNames_def specNames_def Let_def)
qed

lemma Ext_nonempty: "Ext n = ''.tfspec'' \<Longrightarrow> n \<noteq> []"
  by (auto simp: Ext_def)

lemma specNames_nonempty: "n \<in> set (specNames fis) \<Longrightarrow> n \<noteq> []"
  by (auto simp: specNames_def dest: Ext_nonempty)

lemma findCase_selects:
  assumes "joinNonEmpty lib" and "ReadDir lib d = Some fis" and "specNames fis \<noteq> []"
  shows "findCase lib d =
     Some \<lparr>dir = d,
           variableFile = (if varNames fis = [] then [] else Join lib d (last (varNames fis))),
           specFile = Join lib d (last (specNames fis))\<rparr>"
proof -
  have "last (specNames fis) \<in> set (specNames fis)" using assms(3) by simp
  then have "last (specNames fis) \<noteq> []" by (rule specNames_nonempty)
  then have "Join lib d (last (specNames fis)) \<noteq> []"
    using assms(1) by (simp add: joinNonEmpty_def)
  then show ?thesis using assms(2,3) by (simp add: findCase_def findCase_loop_last)
qed

lemma findCase_None:
  assumes "\<not> hasSpec lib d"
  shows "findCase lib d = None"
proof (cases "ReadDir lib d")
  case None
  then show ?thesis by (simp add: findCase_def)
next
  case (Some fis)
  then have "specNames fis = []" using assms by (simp add: hasSpec_def)
  then show ?thesis using Some by (simp add: findCase_def findCase_loop_last)
qed

lemma findCase_Some:
  assumes "joinNonEmpty lib" and "hasSpec lib d"
  shows "\<exists>tc. findCase lib d = Some tc \<and> dir tc = d"
proof -
  obtain fis where "ReadDir lib d = Some fis" and "specNames fis \<noteq> []"
    using assms(2) by (auto simp: hasSpec_def split: option.splits)
  then show ?thesis using findCase_selects [OF assms(1)] by simp
qed

lemma findCases_loop_dirs:
  assumes "joinNonEmpty lib"
  shows "map dir (findCases_loop lib rootDir rootFis acc) =
     map dir acc @ subdirsWithSpec lib rootDir rootFis"
proof (induction rootFis arbitrary: acc)
  case Nil
  show ?case by (simp add: subdirsWithSpec_def)
next
  case (Cons fi rootFis)
  show ?case
  proof (cases "IsDir fi \<and> hasSpec lib (Join lib rootDir (Name fi))")
    case True
    then obtain tc where "findCase lib (Join lib rootDir (Name fi)) = Some tc"
        and "dir tc = Join lib rootDir (Name fi)"
      using findCase_Some [OF assms] by blast
    then show ?thesis using True Cons.IH [of "acc @ [tc]"]
      by (simp add: subdirsWithSpec_def)
  next
    case False
    then have "\<not> IsDir fi \<or> findCase lib (Join lib rootDir (Name fi)) = None"
      using findCase_None [of lib "Join lib rootDir (Name fi)"] by auto
    then show ?thesis using False Cons.IH [of acc]
      by (auto simp: subdirsWithSpec_def)
  qed
qed

lemma findCases_loop_cases:
  "set (findCases_loop lib rootDir rootFis acc) \<subseteq>
     set acc \<union> {tc. \<exists>d. findCase lib d = Some tc}"
proof (induction rootFis arbitrary: acc)
  case Nil
  show ?case by simp
next
  case (Cons fi rootFis)
  show ?case
  proof (cases "IsDir fi")
    case False
    then show ?thesis using Cons.IH [of acc] by simp
  next
    case True
    show ?thesis
    proof (cases "findCase lib (Join lib rootDir (Name fi))")
      case None
      then show ?thesis using True Cons.IH [of acc] by simp
    next
      case (Some tc)
      then have "tc \<in> {c. \<exists>d. findCase lib d = Some c}" by blast
      then show ?thesis using True Some Cons.IH [of "acc @ [tc]"] by auto
    qed
  qed
qed

lemma findCase_dir: "findCase lib d = Some tc \<Longrightarrow> dir tc = d \<and> hasSpec lib d"
  by (auto simp: findCase_def hasSpec_def findCase_loop_last split: option.splits if_splits)

lemma varNames_nonempty: "n \<in> set (varNames fis) \<Longrightarrow> n \<noteq> []"
  by (auto simp: varNames_def Ext_def)

lemma findCase_variableFile:
  assumes "joinNonEmpty lib" and "findCase lib d = Some tc"
  shows "\<exists>fis. ReadDir lib d = Some fis \<and> (variableFile tc = [] \<longleftrightarrow> varNames fis = [])"
proof -
  have "hasSpec lib d" using assms(2) by (simp add: findCase_dir)
  then obtain fis where fis: "ReadDir lib d = Some fis" "specNames fis \<noteq> []"
    by (auto simp: hasSpec_def split: option.splits)
  have v: "variableFile tc =
      (if varNames fis = [] then [] else Join lib d (last (varNames fis)))"
    using findCase_selects [OF assms(1) fis] assms(2) by auto
  have "varNames fis \<noteq> [] \<Longrightarrow> Join lib d (last (varNames fis)) \<noteq> []"
  proof -
    assume ne: "varNames fis \<noteq> []"
    then have "last (varNames fis) \<in> set (varNames fis)" by simp
    then have "last (varNames fis) \<noteq> []" by (rule varNames_nonempty)
    then show ?thesis using assms(1) by (simp add: joinNonEmpty_def)
  qed
  then show ?thesis using fis(1) v by auto
qed

text \<open>
  C4. When the root directory can be read, discovery returns, in this order, one test
  case for each immediate subdirectory that directly contains a file with extension
  \<open>.tfspec\<close>, and one for the root itself if it directly contains such a file. A
  directory without such a file gives no test case. A test case is returned with or
  without a variables file: its \<open>variableFile\<close> is empty exactly when the directory
  holds no file with extension \<open>.tfvars\<close>.
\<close>
theorem findCases_one_case_per_directory_with_spec:
  assumes "joinNonEmpty lib" and "ReadDir lib rootDir = Some rootFis"
  shows "\<exists>testCases. findCases lib rootDir = Inr testCases
     \<and> map dir testCases =
         subdirsWithSpec lib rootDir rootFis @ (if hasSpec lib rootDir then [rootDir] else [])
     \<and> (\<forall>tc \<in> set testCases.
          hasSpec lib (dir tc) \<and> findCase lib (dir tc) = Some tc
          \<and> (\<exists>fis. ReadDir lib (dir tc) = Some fis
                \<and> (variableFile tc = [] \<longleftrightarrow> varNames fis = [])))"
proof (cases "hasSpec lib rootDir")
  case True
  then obtain tc where tc: "findCase lib rootDir = Some tc" "dir tc = rootDir"
    using findCase_Some [OF assms(1)] by blast
  let ?cs = "findCases_loop lib rootDir rootFis [] @ [tc]"
  have 1: "findCases lib rootDir = Inr ?cs"
    using assms(2) tc by (simp add: findCases_def)
  have 2: "map dir ?cs = subdirsWithSpec lib rootDir rootFis @ [rootDir]"
    using findCases_loop_dirs [OF assms(1), of rootDir rootFis "[]"] tc by simp
  have 3: "\<forall>c \<in> set ?cs. hasSpec lib (dir c) \<and> findCase lib (dir c) = Some c"
    using findCases_loop_cases [of lib rootDir rootFis "[]"] tc True
    by (auto dest: findCase_dir)
  have 4: "\<forall>c \<in> set ?cs. \<exists>fis. ReadDir lib (dir c) = Some fis
                \<and> (variableFile c = [] \<longleftrightarrow> varNames fis = [])"
    using 3 findCase_variableFile [OF assms(1)] by blast
  show ?thesis using 1 2 3 4 True by simp
next
  case False
  then have n: "findCase lib rootDir = None" by (rule findCase_None)
  let ?cs = "findCases_loop lib rootDir rootFis []"
  have 1: "findCases lib rootDir = Inr ?cs"
    using assms(2) n by (simp add: findCases_def)
  have 2: "map dir ?cs = subdirsWithSpec lib rootDir rootFis"
    using findCases_loop_dirs [OF assms(1), of rootDir rootFis "[]"] by simp
  have 3: "\<forall>c \<in> set ?cs. hasSpec lib (dir c) \<and> findCase lib (dir c) = Some c"
    using findCases_loop_cases [of lib rootDir rootFis "[]"]
    by (auto dest: findCase_dir)
  have 4: "\<forall>c \<in> set ?cs. \<exists>fis. ReadDir lib (dir c) = Some fis
                \<and> (variableFile c = [] \<longleftrightarrow> varNames fis = [])"
    using 3 findCase_variableFile [OF assms(1)] by blast
  show ?thesis using 1 2 3 4 False by simp
qed

lemma sampleLib_join: "joinNonEmpty sampleLib"
  by (simp add: joinNonEmpty_def sampleLib_def)

lemma sample_findCases_spec: "findCases sampleLib ''spec'' = Inr [caseA, caseBroken, caseRoot]"
  by (simp add: findCases_def findCase_def sampleLib_def Ext_def caseA_def caseBroken_def
      caseRoot_def)

lemma sample_findCases_bad: "findCases sampleLib ''bad'' = Inr [caseOk, caseBad]"
  by (simp add: findCases_def findCase_def sampleLib_def Ext_def caseBad_def caseOk_def)

theorem findCases_one_case_per_directory_with_spec_witness:
  "joinNonEmpty sampleLib
   \<and> ReadDir sampleLib ''spec'' =
       Some [\<lparr>Name = ''a'', IsDir = True\<rparr>, \<lparr>Name = ''b'', IsDir = True\<rparr>,
             \<lparr>Name = ''broken'', IsDir = True\<rparr>,
             \<lparr>Name = ''x.tfspec'', IsDir = False\<rparr>, \<lparr>Name = ''y.tfspec'', IsDir = False\<rparr>]
   \<and> findCases sampleLib ''spec'' = Inr [caseA, caseBroken, caseRoot]
   \<and> map dir [caseA, caseBroken, caseRoot] =
       subdirsWithSpec sampleLib ''spec''
         [\<lparr>Name = ''a'', IsDir = True\<rparr>, \<lparr>Name = ''b'', IsDir = True\<rparr>,
          \<lparr>Name = ''broken'', IsDir = True\<rparr>,
          \<lparr>Name = ''x.tfspec'', IsDir = False\<rparr>, \<lparr>Name = ''y.tfspec'', IsDir = False\<rparr>]
       @ (if hasSpec sampleLib ''spec'' then [''spec''] else [])
   \<and> variableFile caseA \<noteq> [] \<and> variableFile caseRoot = []"
proof -
  have r: "ReadDir sampleLib ''spec'' =
       Some [\<lparr>Name = ''a'', IsDir = True\<rparr>, \<lparr>Name = ''b'', IsDir = True\<rparr>,
             \<lparr>Name = ''broken'', IsDir = True\<rparr>,
             \<lparr>Name = ''x.tfspec'', IsDir = False\<rparr>, \<lparr>Name = ''y.tfspec'', IsDir = False\<rparr>]"
    by (simp add: sampleLib_def)
  note t = findCases_one_case_per_directory_with_spec [OF sampleLib_join r]
  have v: "variableFile caseA \<noteq> [] \<and> variableFile caseRoot = []"
    by (simp add: caseA_def caseRoot_def)
  show ?thesis using sampleLib_join r t v sample_findCases_spec by auto
qed

lemma sorted_last_max:
  fixes xs :: "('a::linorder) list"
  shows "sorted xs \<Longrightarrow> x \<in> set xs \<Longrightarrow> x \<le> last xs"
  by (induction xs) (auto split: if_splits)

lemma sorted_specNames: "sorted (map Name fis) \<Longrightarrow> sorted (specNames fis)"
  unfolding specNames_def by (induction fis) auto

text \<open>
  C9. With several files of extension \<open>.tfspec\<close> (or \<open>.tfvars\<close>) in a directory,
  \<open>findCase\<close> takes the last one of the listing and returns a test case, not an
  error; in a listing sorted by name, that is the greatest name.
\<close>
theorem findCase_takes_last_match:
  assumes "joinNonEmpty lib" and "ReadDir lib d = Some fis" and "specNames fis \<noteq> []"
  shows "findCase lib d =
     Some \<lparr>dir = d,
           variableFile = (if varNames fis = [] then [] else Join lib d (last (varNames fis))),
           specFile = Join lib d (last (specNames fis))\<rparr>
     \<and> (sorted (map Name fis) \<longrightarrow> (\<forall>n \<in> set (specNames fis). n \<le> last (specNames fis)))"
  using findCase_selects [OF assms] sorted_last_max [OF sorted_specNames]
  by blast

theorem findCase_takes_last_match_witness:
  "joinNonEmpty sampleLib
   \<and> ReadDir sampleLib ''spec'' =
       Some [\<lparr>Name = ''a'', IsDir = True\<rparr>, \<lparr>Name = ''b'', IsDir = True\<rparr>,
             \<lparr>Name = ''broken'', IsDir = True\<rparr>,
             \<lparr>Name = ''x.tfspec'', IsDir = False\<rparr>, \<lparr>Name = ''y.tfspec'', IsDir = False\<rparr>]
   \<and> specNames [\<lparr>Name = ''a'', IsDir = True\<rparr>, \<lparr>Name = ''b'', IsDir = True\<rparr>,
             \<lparr>Name = ''broken'', IsDir = True\<rparr>,
             \<lparr>Name = ''x.tfspec'', IsDir = False\<rparr>, \<lparr>Name = ''y.tfspec'', IsDir = False\<rparr>]
       = [''x.tfspec'', ''y.tfspec'']
   \<and> sorted [''a'', ''b'', ''broken'', ''x.tfspec'', ''y.tfspec'']
   \<and> findCase sampleLib ''spec'' =
       Some \<lparr>dir = ''spec'', variableFile = [], specFile = ''spec/y.tfspec''\<rparr>
   \<and> ''x.tfspec'' \<le> ''y.tfspec''"
proof -
  let ?fis = "[\<lparr>Name = ''a'', IsDir = True\<rparr>, \<lparr>Name = ''b'', IsDir = True\<rparr>,
             \<lparr>Name = ''broken'', IsDir = True\<rparr>,
             \<lparr>Name = ''x.tfspec'', IsDir = False\<rparr>, \<lparr>Name = ''y.tfspec'', IsDir = False\<rparr>]"
  have r: "ReadDir sampleLib ''spec'' = Some ?fis"
    by (simp add: sampleLib_def)
  have n: "specNames ?fis = [''x.tfspec'', ''y.tfspec'']"
    by (simp add: specNames_def Ext_def)
  have v: "varNames ?fis = []"
    by (simp add: varNames_def Ext_def)
  have ne: "specNames ?fis \<noteq> []" using n by simp
  have j: "Join sampleLib ''spec'' ''y.tfspec'' = ''spec/y.tfspec''"
    by (simp add: sampleLib_def)
  have so: "sorted (map Name ?fis)"
    by simp
  note t = findCase_takes_last_match [OF sampleLib_join r ne]
  show ?thesis using sampleLib_join r n v j so t by simp
qed

section \<open>Properties of one test case\<close>

lemma runTestCase_refresh_unfold:
  assumes "Refresh eng e = (e1, d1)" and "Plan eng e1 = ((e2, p), d2)"
  shows "runTestCase_refresh lib eng dp tc spec e =
     (if HasErrors d1 then
        ([(RefreshCall e, Inr d1)],
         Reported \<lparr>name = testCase_name lib tc, plan = [], report = d1\<rparr>)
      else if HasErrors d2 then
        ([(RefreshCall e, Inr d1), (PlanCall e1, Inr d2)],
         Reported \<lparr>name = testCase_name lib tc, plan = [], report = d2\<rparr>)
      else
        (case Validate eng spec p of
           Inl err \<Rightarrow>
             ([(RefreshCall e, Inr d1), (PlanCall e1, Inr d2), (ValidateCall, Inl err)],
              Fatal err)
         | Inr ds \<Rightarrow>
             ([(RefreshCall e, Inr d1), (PlanCall e1, Inr d2), (ValidateCall, Inr ds)],
              Reported \<lparr>name = testCase_name lib tc,
                        plan = (if dp then RenderPlan eng p e2 else []), report = ds\<rparr>)))"
  using assms
  by (simp add: runTestCase_refresh_def logged_def fatalReport_def split: sum.splits)

lemma runTestCase_unfold:
  assumes "NewContextOptions eng ''.'' (variableFile tc) = (e0, d0)"
    and "NewContext eng e0 = (e1, d1)"
    and "ReadSpec eng (specFile tc) e1 = (spec, d2)"
    and "InjectMockedData eng e1 (Mocks eng spec) = (e2, d3)"
  shows "runTestCase lib eng dp tc =
     (if HasErrors d0 then
        ([(NewContextOptionsCall, Inr d0)],
         Reported \<lparr>name = testCase_name lib tc, plan = [], report = d0\<rparr>)
      else if HasErrors d1 then
        ([(NewContextOptionsCall, Inr d0), (NewContextCall e0, Inr d1)],
         Reported \<lparr>name = testCase_name lib tc, plan = [], report = d1\<rparr>)
      else if HasErrors d2 then
        ([(NewContextOptionsCall, Inr d0), (NewContextCall e0, Inr d1), (ReadSpecCall e1, Inr d2)],
         Reported \<lparr>name = testCase_name lib tc, plan = [], report = d2\<rparr>)
      else if 0 < length (Mocks eng spec) then
        (if HasErrors d3 then
           ([(NewContextOptionsCall, Inr d0), (NewContextCall e0, Inr d1),
             (ReadSpecCall e1, Inr d2), (InjectMockedDataCall e1 (Mocks eng spec), Inr d3)],
            Reported \<lparr>name = testCase_name lib tc, plan = [], report = d3\<rparr>)
         else
           ([(NewContextOptionsCall, Inr d0), (NewContextCall e0, Inr d1),
             (ReadSpecCall e1, Inr d2), (InjectMockedDataCall e1 (Mocks eng spec), Inr d3)]
              @ fst (runTestCase_refresh lib eng dp tc spec e2),
            snd (runTestCase_refresh lib eng dp tc spec e2)))
      else
        ([(NewContextOptionsCall, Inr d0), (NewContextCall e0, Inr d1), (ReadSpecCall e1, Inr d2)]
           @ fst (runTestCase_refresh lib eng dp tc spec e1),
         snd (runTestCase_refresh lib eng dp tc spec e1)))"
  using assms
  by (simp add: runTestCase_def logged_def fatalReport_def)

lemma runTestCase_main_go_unfold:
  assumes "LibNewContext eng ''.'' (variableFile tc) = (e0, d0)"
    and "Plan eng e0 = ((e1, p), d1)"
    and "ReadSpec eng (specFile tc) e1 = (spec, d2)"
  shows "runTestCase_main_go lib eng dp tc =
     (if HasErrors d0 then
        ([(LibNewContextCall, Inr d0)],
         Reported \<lparr>name = testCase_name lib tc, plan = [], report = d0\<rparr>)
      else if HasErrors d1 then
        ([(LibNewContextCall, Inr d0), (PlanCall e0, Inr d1)],
         Reported \<lparr>name = testCase_name lib tc, plan = [], report = d1\<rparr>)
      else if HasErrors d2 then
        ([(LibNewContextCall, Inr d0), (PlanCall e0, Inr d1), (ReadSpecCall e1, Inr d2)],
         Reported \<lparr>name = testCase_name lib tc,
                   plan = (if dp then RenderPlan eng p e1 else []), report = d2\<rparr>)
      else
        (case Validate eng spec p of
           Inl err \<Rightarrow>
             ([(LibNewContextCall, Inr d0), (PlanCall e0, Inr d1), (ReadSpecCall e1, Inr d2),
               (ValidateCall, Inl err)],
              Fatal err)
         | Inr ds \<Rightarrow>
             ([(LibNewContextCall, Inr d0), (PlanCall e0, Inr d1), (ReadSpecCall e1, Inr d2),
               (ValidateCall, Inr ds)],
              Reported \<lparr>name = testCase_name lib tc,
                        plan = (if dp then RenderPlan eng p e1 else []), report = ds\<rparr>)))"
  using assms
  by (simp add: runTestCase_main_go_def logged_def fatalReport_def split: sum.splits)


lemma stages_refresh:
  "prefix (stages (fst (runTestCase_refresh lib eng dp tc spec e))) [Refreshed, Planned, Validated]
   \<and> (Validated \<in> set (stages (fst (runTestCase_refresh lib eng dp tc spec e))) \<longrightarrow>
        stages (fst (runTestCase_refresh lib eng dp tc spec e)) = [Refreshed, Planned, Validated])"
proof -
  obtain e1 d1 where R: "Refresh eng e = (e1, d1)" by (cases "Refresh eng e")
  obtain e2 p d2 where P: "Plan eng e1 = ((e2, p), d2)" by (cases "Plan eng e1") auto
  show ?thesis
    by (simp add: runTestCase_refresh_unfold [OF R P] stages_def split: sum.splits)
qed

lemma stages_runTestCase:
  "prefix (stages (fst (runTestCase lib eng dp tc)))
     (pipeline (0 < length (Mocks eng (parsedSpec eng tc))))
   \<and> (Validated \<in> set (stages (fst (runTestCase lib eng dp tc))) \<longrightarrow>
        stages (fst (runTestCase lib eng dp tc)) =
          pipeline (0 < length (Mocks eng (parsedSpec eng tc))))"
proof -
  obtain e0 d0 where O: "NewContextOptions eng ''.'' (variableFile tc) = (e0, d0)"
    by (cases "NewContextOptions eng ''.'' (variableFile tc)")
  obtain e1 d1 where C: "NewContext eng e0 = (e1, d1)" by (cases "NewContext eng e0")
  obtain spec d2 where S: "ReadSpec eng (specFile tc) e1 = (spec, d2)"
    by (cases "ReadSpec eng (specFile tc) e1")
  obtain e2 d3 where I: "InjectMockedData eng e1 (Mocks eng spec) = (e2, d3)"
    by (cases "InjectMockedData eng e1 (Mocks eng spec)")
  have sp: "parsedSpec eng tc = spec" by (simp add: parsedSpec_def O C S)
  have st: "\<And>xs ys. stages (xs @ ys) = stages xs @ stages ys" by (simp add: stages_def)
  show ?thesis
    using stages_refresh [of lib eng dp tc spec e1] stages_refresh [of lib eng dp tc spec e2]
    by (simp add: runTestCase_unfold [OF O C S I] sp st pipeline_def) (simp add: stages_def)
qed

lemma stages_main_go:
  "prefix (stages (fst (runTestCase_main_go lib eng dp tc))) pipeline_main_go
   \<and> (Validated \<in> set (stages (fst (runTestCase_main_go lib eng dp tc))) \<longrightarrow>
        stages (fst (runTestCase_main_go lib eng dp tc)) = pipeline_main_go)"
proof -
  obtain e0 d0 where O: "LibNewContext eng ''.'' (variableFile tc) = (e0, d0)"
    by (cases "LibNewContext eng ''.'' (variableFile tc)")
  obtain e1 p d1 where P: "Plan eng e0 = ((e1, p), d1)" by (cases "Plan eng e0") auto
  obtain spec d2 where S: "ReadSpec eng (specFile tc) e1 = (spec, d2)"
    by (cases "ReadSpec eng (specFile tc) e1")
  show ?thesis
    by (simp add: runTestCase_main_go_unfold [OF O P S] stages_def pipeline_main_go_def
        split: sum.splits)
qed

lemma before_prefix: "prefix xs ys \<Longrightarrow> before P Q ys \<Longrightarrow> before P Q xs"
proof (induction xs arbitrary: ys)
  case Nil
  show ?case by simp
next
  case (Cons x xs)
  from Cons.prems(1) obtain r where ys: "ys = x # (xs @ r)" by (auto simp: prefix_def)
  then have "prefix xs (xs @ r)" by simp
  then show ?case using Cons.IH [of "xs @ r"] Cons.prems(2) ys by (auto split: if_splits)
qed

lemma reported_refresh:
  assumes "(c, Inr ds) \<in> set (fst (runTestCase_refresh lib eng dp tc spec e))" and "HasErrors ds"
  shows "\<exists>r. snd (runTestCase_refresh lib eng dp tc spec e) = Reported r
     \<and> name r = testCase_name lib tc \<and> report r = ds
     \<and> (c \<noteq> ValidateCall \<longrightarrow> plan r = [])
     \<and> last (fst (runTestCase_refresh lib eng dp tc spec e)) = (c, Inr ds)"
proof -
  obtain e1 d1 where R: "Refresh eng e = (e1, d1)" by (cases "Refresh eng e")
  obtain e2 p d2 where P: "Plan eng e1 = ((e2, p), d2)" by (cases "Plan eng e1") auto
  show ?thesis
    using assms
    by (auto simp: runTestCase_refresh_unfold [OF R P] split: sum.splits if_splits)
qed

lemma refresh_nonempty: "fst (runTestCase_refresh lib eng dp tc spec e) \<noteq> []"
proof -
  obtain e1 d1 where R: "Refresh eng e = (e1, d1)" by (cases "Refresh eng e")
  obtain e2 p d2 where P: "Plan eng e1 = ((e2, p), d2)" by (cases "Plan eng e1") auto
  show ?thesis by (simp add: runTestCase_refresh_unfold [OF R P] split: sum.splits)
qed

lemma reported_runTestCase:
  assumes "(c, Inr ds) \<in> set (fst (runTestCase lib eng dp tc))" and "HasErrors ds"
  shows "\<exists>r. snd (runTestCase lib eng dp tc) = Reported r
     \<and> name r = testCase_name lib tc \<and> report r = ds
     \<and> (c \<noteq> ValidateCall \<longrightarrow> plan r = [])
     \<and> last (fst (runTestCase lib eng dp tc)) = (c, Inr ds)"
proof -
  obtain e0 d0 where O: "NewContextOptions eng ''.'' (variableFile tc) = (e0, d0)"
    by (cases "NewContextOptions eng ''.'' (variableFile tc)")
  obtain e1 d1 where C: "NewContext eng e0 = (e1, d1)" by (cases "NewContext eng e0")
  obtain spec d2 where S: "ReadSpec eng (specFile tc) e1 = (spec, d2)"
    by (cases "ReadSpec eng (specFile tc) e1")
  obtain e2 d3 where I: "InjectMockedData eng e1 (Mocks eng spec) = (e2, d3)"
    by (cases "InjectMockedData eng e1 (Mocks eng spec)")
  show ?thesis
    using assms reported_refresh [of c ds lib eng dp tc spec e1]
      reported_refresh [of c ds lib eng dp tc spec e2]
      refresh_nonempty [of lib eng dp tc spec e1] refresh_nonempty [of lib eng dp tc spec e2]
    by (auto simp: runTestCase_unfold [OF O C S I] split: if_splits)
qed



lemma sample_run_caseA:
  "runTestCase sampleLib sampleEngine False caseA =
     ([(NewContextOptionsCall, Inr []),
       (NewContextCall (''spec/a/v.tfvars'', Map.empty), Inr []),
       (ReadSpecCall (''spec/a/v.tfvars'', Map.empty), Inr []),
       (InjectMockedDataCall (''spec/a/v.tfvars'', Map.empty) [sampleMock], Inr []),
       (RefreshCall (''spec/a/v.tfvars'', [(''aws_ami'', ''ubuntu'') \<mapsto> ''ami-123'']), Inr []),
       (PlanCall (''spec/a/v.tfvars'', [(''aws_ami'', ''ubuntu'') \<mapsto> ''ami-123'']), Inr []),
       (ValidateCall, Inr [matched])],
      Reported \<lparr>name = ''a'', plan = [], report = [matched]\<rparr>)"
  by (simp add: runTestCase_def runTestCase_refresh_def logged_def fatalReport_def HasErrors_def
      sampleEngine_def sampleLib_def caseA_def testCase_name_def InjectMockedData_spec_def
      sampleMock_def mockAddr_def)

lemma sample_run_caseBroken:
  "runTestCase sampleLib sampleEngine False caseBroken =
     ([(NewContextOptionsCall, Inr []),
       (NewContextCall (''spec/broken/bad.tfvars'', Map.empty), Inr []),
       (ReadSpecCall (''spec/broken/bad.tfvars'', Map.empty), Inr []),
       (RefreshCall (''spec/broken/bad.tfvars'', Map.empty), Inr []),
       (PlanCall (''spec/broken/bad.tfvars'', Map.empty), Inr [planFailed])],
      Reported \<lparr>name = ''broken'', plan = [], report = [planFailed]\<rparr>)"
  by (simp add: runTestCase_def runTestCase_refresh_def logged_def fatalReport_def HasErrors_def
      sampleEngine_def sampleLib_def caseBroken_def testCase_name_def planFailed_def)

lemma sample_run_caseRoot:
  "runTestCase sampleLib sampleEngine False caseRoot =
     ([(NewContextOptionsCall, Inr []),
       (NewContextCall ([], Map.empty), Inr []),
       (ReadSpecCall ([], Map.empty), Inr []),
       (RefreshCall ([], Map.empty), Inr []),
       (PlanCall ([], Map.empty), Inr []),
       (ValidateCall, Inr [matched])],
      Reported \<lparr>name = ''spec'', plan = [], report = [matched]\<rparr>)"
  by (simp add: runTestCase_def runTestCase_refresh_def logged_def fatalReport_def HasErrors_def
      sampleEngine_def sampleLib_def caseRoot_def testCase_name_def matched_def)

lemma sample_run_caseBad:
  "runTestCase sampleLib sampleEngine False caseBad =
     ([(NewContextOptionsCall, Inr []),
       (NewContextCall ([], Map.empty), Inr []),
       (ReadSpecCall ([], Map.empty), Inr []),
       (RefreshCall ([], Map.empty), Inr []),
       (PlanCall ([], Map.empty), Inr []),
       (ValidateCall, Inl ''validation failed'')],
      Fatal ''validation failed'')"
  by (simp add: runTestCase_def runTestCase_refresh_def logged_def fatalReport_def HasErrors_def
      sampleEngine_def sampleLib_def caseBad_def testCase_name_def)

lemma sample_run_main_go_caseA:
  "stages (fst (runTestCase_main_go sampleLib sampleEngine False caseA)) =
     [ConfigParsed, Planned, SpecParsed, Validated]"
  by (simp add: runTestCase_main_go_def logged_def fatalReport_def HasErrors_def stages_def
      sampleEngine_def sampleLib_def caseA_def testCase_name_def)

text \<open>
  C1, as stated, fails. For the sample scenario \<open>a\<close>, whose spec declares a mocked
  data source, the stages run in the order ConfigParsed, ConfigParsed, SpecParsed,
  MockInjected, Refreshed, Planned, Validated: this is not the stated order, and the
  spec file is parsed before the plan is computed, not after.
\<close>
theorem stated_stage_order_counterexample:
  "stages (fst (runTestCase sampleLib sampleEngine False caseA)) =
     [ConfigParsed, ConfigParsed, SpecParsed, MockInjected, Refreshed, Planned, Validated]
   \<and> \<not> inStatedOrder (stages (fst (runTestCase sampleLib sampleEngine False caseA)))
   \<and> \<not> before ((=) Planned) ((=) SpecParsed)
         (stages (fst (runTestCase sampleLib sampleEngine False caseA)))"
  by (simp add: sample_run_caseA stages_def inStatedOrder_def)

text \<open>
  C1, amended. The stages of \<open>runTestCase\<close> are a prefix of: configuration parse,
  context creation, spec parse, mock injection (only when the parsed spec declares
  mocks), refresh, plan, validation; a run that reaches the validation has run all of
  them in this order. The spec file is parsed before the mock injection, the refresh and
  the plan. In \<open>main.go\<close>, which has no mocks and no refresh, the stages are a prefix
  of: context creation, plan, spec parse, validation.
\<close>
theorem stage_order_of_runTestCase:
  "prefix (stages (fst (runTestCase lib eng dp tc)))
     (pipeline (0 < length (Mocks eng (parsedSpec eng tc))))
   \<and> (Validated \<in> set (stages (fst (runTestCase lib eng dp tc))) \<longrightarrow>
        stages (fst (runTestCase lib eng dp tc)) =
          pipeline (0 < length (Mocks eng (parsedSpec eng tc))))
   \<and> before ((=) SpecParsed) ((=) MockInjected) (stages (fst (runTestCase lib eng dp tc)))
   \<and> before ((=) SpecParsed) ((=) Refreshed) (stages (fst (runTestCase lib eng dp tc)))
   \<and> before ((=) SpecParsed) ((=) Planned) (stages (fst (runTestCase lib eng dp tc)))
   \<and> prefix (stages (fst (runTestCase_main_go lib eng dp tc))) pipeline_main_go
   \<and> (Validated \<in> set (stages (fst (runTestCase_main_go lib eng dp tc))) \<longrightarrow>
        stages (fst (runTestCase_main_go lib eng dp tc)) = pipeline_main_go)"
proof -
  note p = stages_runTestCase [of lib eng dp tc]
  have b: "\<And>Q. Q \<noteq> ConfigParsed \<Longrightarrow> Q \<noteq> SpecParsed \<Longrightarrow>
      before ((=) SpecParsed) ((=) Q) (stages (fst (runTestCase lib eng dp tc)))"
    by (rule before_prefix [OF conjunct1 [OF p]]) (simp add: pipeline_def)
  show ?thesis using p b stages_main_go [of lib eng dp tc] by simp
qed

theorem stage_order_of_runTestCase_witness:
  "Validated \<in> set (stages (fst (runTestCase sampleLib sampleEngine False caseA)))
   \<and> stages (fst (runTestCase sampleLib sampleEngine False caseA)) = pipeline True
   \<and> Validated \<in> set (stages (fst (runTestCase_main_go sampleLib sampleEngine False caseA)))
   \<and> stages (fst (runTestCase_main_go sampleLib sampleEngine False caseA)) = pipeline_main_go"
proof -
  have v: "Validated \<in> set (stages (fst (runTestCase sampleLib sampleEngine False caseA)))"
    by (simp add: sample_run_caseA stages_def)
  have m: "Mocks sampleEngine (parsedSpec sampleEngine caseA) = [sampleMock]"
    by (simp add: parsedSpec_def sampleEngine_def caseA_def)
  have w: "Validated \<in> set (stages (fst (runTestCase_main_go sampleLib sampleEngine False caseA)))"
    by (simp add: sample_run_main_go_caseA)
  note t = stage_order_of_runTestCase [of sampleLib sampleEngine False caseA]
  show ?thesis using v w m t by simp
qed

text \<open>
  C3. If a call into the engine that a test case makes returns diagnostics with an
  error, the test case ends with exactly one report, which carries the name of the case
  and exactly these diagnostics (and no plan text, unless the call is the validation);
  the call is the last one of the case, so the later stages are skipped. In the
  concurrent run, the step of this goroutine changes its own entry only: the process
  keeps running and the other goroutines are as before; the send of the report appends
  it once to what \<open>main\<close> has received, sets \<open>exitCode\<close> to 1 and changes nothing
  else, unless the printing of the diagnostics panics, which ends the process.
\<close>
theorem fatal_stage_gives_one_report:
  assumes "(c, Inr ds) \<in> set (fst (runTestCase lib eng dp tc))" and "HasErrors ds"
  shows "\<exists>r. caseRun lib eng dp tc = Reported r
     \<and> name r = testCase_name lib tc \<and> report r = ds
     \<and> (c \<noteq> ValidateCall \<longrightarrow> plan r = [])
     \<and> last (fst (runTestCase lib eng dp tc)) = (c, Inr ds)
     \<and> (\<forall>s i. status s = Running \<and> i < length (tasks s) \<and> tasks s ! i = (tc, Pending) \<longrightarrow>
          step (caseRun lib eng dp) (Run i) s =
            Some (s\<lparr>tasks := (tasks s)[i := (tc, Sending r)]\<rparr>))
     \<and> (\<forall>s i. status s = Running \<and> mainAt s = Collecting \<and> \<not> chanClosed s
            \<and> i < length (tasks s) \<and> tasks s ! i = (tc, Sending r) \<longrightarrow>
          step (caseRun lib eng dp) (Send i) s =
            Some (case printDiags ds of
                    Inl (Panic msg) \<Rightarrow>
                      s\<lparr>tasks := (tasks s)[i := (tc, Sent)], exitCode := 1,
                        printed := printed s @ [r], status := Panicked msg\<rparr>
                  | Inr out \<Rightarrow>
                      s\<lparr>tasks := (tasks s)[i := (tc, Sent)], exitCode := 1,
                        printed := printed s @ [r]\<rparr>))"
proof -
  from reported_runTestCase [OF assms] obtain r where
    r: "snd (runTestCase lib eng dp tc) = Reported r" "name r = testCase_name lib tc"
       "report r = ds" "c \<noteq> ValidateCall \<longrightarrow> plan r = []"
       "last (fst (runTestCase lib eng dp tc)) = (c, Inr ds)"
    by blast
  have run: "caseRun lib eng dp tc = Reported r" using r(1) by (simp add: caseRun_def)
  have 1: "\<forall>s i. status s = Running \<and> i < length (tasks s) \<and> tasks s ! i = (tc, Pending) \<longrightarrow>
          step (caseRun lib eng dp) (Run i) s =
            Some (s\<lparr>tasks := (tasks s)[i := (tc, Sending r)]\<rparr>)"
    using run by simp
  have 2: "\<forall>s i. status s = Running \<and> mainAt s = Collecting \<and> \<not> chanClosed s
            \<and> i < length (tasks s) \<and> tasks s ! i = (tc, Sending r) \<longrightarrow>
          step (caseRun lib eng dp) (Send i) s =
            Some (case printDiags ds of
                    Inl (Panic msg) \<Rightarrow>
                      s\<lparr>tasks := (tasks s)[i := (tc, Sent)], exitCode := 1,
                        printed := printed s @ [r], status := Panicked msg\<rparr>
                  | Inr out \<Rightarrow>
                      s\<lparr>tasks := (tasks s)[i := (tc, Sent)], exitCode := 1,
                        printed := printed s @ [r]\<rparr>)"
    using r(3) assms(2) by (simp split: sum.splits panic.splits)
  show ?thesis using run r(2-5) 1 2 by blast
qed

theorem fatal_stage_gives_one_report_witness:
  "(PlanCall (''spec/broken/bad.tfvars'', Map.empty), Inr [planFailed])
     \<in> set (fst (runTestCase sampleLib sampleEngine False caseBroken))
   \<and> HasErrors [planFailed]
   \<and> caseRun sampleLib sampleEngine False caseBroken =
       Reported \<lparr>name = ''broken'', plan = [], report = [planFailed]\<rparr>
   \<and> last (fst (runTestCase sampleLib sampleEngine False caseBroken)) =
       (PlanCall (''spec/broken/bad.tfvars'', Map.empty), Inr [planFailed])
   \<and> step (caseRun sampleLib sampleEngine False) (Run 0)
       ((initial [])\<lparr>tasks := [(caseBroken, Pending), (caseRoot, Pending)], wg := 2\<rparr>) =
       Some ((initial [])\<lparr>tasks :=
         [(caseBroken, Sending \<lparr>name = ''broken'', plan = [], report = [planFailed]\<rparr>),
          (caseRoot, Pending)], wg := 2\<rparr>)"
proof -
  have h1: "(PlanCall (''spec/broken/bad.tfvars'', Map.empty), Inr [planFailed])
     \<in> set (fst (runTestCase sampleLib sampleEngine False caseBroken))"
    by (simp add: sample_run_caseBroken)
  have h2: "HasErrors [planFailed]" by (simp add: HasErrors_def planFailed_def)
  have r: "caseRun sampleLib sampleEngine False caseBroken =
       Reported \<lparr>name = ''broken'', plan = [], report = [planFailed]\<rparr>"
    by (simp add: caseRun_def sample_run_caseBroken)
  have l: "last (fst (runTestCase sampleLib sampleEngine False caseBroken)) =
       (PlanCall (''spec/broken/bad.tfvars'', Map.empty), Inr [planFailed])"
    by (simp add: sample_run_caseBroken)
  let ?s = "(initial [])\<lparr>tasks := [(caseBroken, Pending), (caseRoot, Pending)], wg := 2\<rparr>"
  have g: "status ?s = Running \<and> 0 < length (tasks ?s) \<and> tasks ?s ! 0 = (caseBroken, Pending)"
    by (simp add: initial_def)
  from fatal_stage_gives_one_report [OF h1 h2] r
  have "step (caseRun sampleLib sampleEngine False) (Run 0) ?s =
      Some (?s\<lparr>tasks := (tasks ?s)[0 := (caseBroken,
        Sending \<lparr>name = ''broken'', plan = [], report = [planFailed]\<rparr>)]\<rparr>)"
    using g by (metis outcome.inject(1))
  then show ?thesis using h1 h2 r l by simp
qed

lemma InjectMockedData_spec_snoc:
  "InjectMockedData_spec reg (ms @ [m]) = (InjectMockedData_spec reg ms)(mockAddr m \<mapsto> mockResult m)"
  by (simp add: InjectMockedData_spec_def)

lemma InjectMockedData_spec_lookup:
  "InjectMockedData_spec reg ms a =
     (if \<exists>m \<in> set ms. mockAddr m = a
      then Some (mockResult (last (filter (\<lambda>m. mockAddr m = a) ms)))
      else reg a)"
proof (induction ms rule: rev_induct)
  case Nil
  show ?case by (simp add: InjectMockedData_spec_def)
next
  case (snoc m ms)
  show ?case using snoc.IH by (auto simp: InjectMockedData_spec_snoc)
qed

lemma refresh_call_state:
  assumes "(RefreshCall e, res) \<in> set (fst (runTestCase_refresh lib eng dp tc spec e'))"
  shows "e = e'"
proof -
  obtain e1 d1 where R: "Refresh eng e' = (e1, d1)" by (cases "Refresh eng e'")
  obtain e2 p d2 where P: "Plan eng e1 = ((e2, p), d2)" by (cases "Plan eng e1") auto
  show ?thesis
    using assms by (auto simp: runTestCase_refresh_unfold [OF R P] split: sum.splits if_splits)
qed

lemma refresh_after_inject:
  assumes "(RefreshCall e, res) \<in> set (fst (runTestCase lib eng dp tc))"
    and "Mocks eng (parsedSpec eng tc) \<noteq> []"
  shows "\<exists>e1 ires. (InjectMockedDataCall e1 (Mocks eng (parsedSpec eng tc)), ires)
             \<in> set (fst (runTestCase lib eng dp tc))
           \<and> e = fst (InjectMockedData eng e1 (Mocks eng (parsedSpec eng tc)))"
proof -
  obtain e0 d0 where O: "NewContextOptions eng ''.'' (variableFile tc) = (e0, d0)"
    by (cases "NewContextOptions eng ''.'' (variableFile tc)")
  obtain e1 d1 where C: "NewContext eng e0 = (e1, d1)" by (cases "NewContext eng e0")
  obtain spec d2 where S: "ReadSpec eng (specFile tc) e1 = (spec, d2)"
    by (cases "ReadSpec eng (specFile tc) e1")
  obtain e2 d3 where I: "InjectMockedData eng e1 (Mocks eng spec) = (e2, d3)"
    by (cases "InjectMockedData eng e1 (Mocks eng spec)")
  have sp: "parsedSpec eng tc = spec" by (simp add: parsedSpec_def O C S)
  show ?thesis
    using assms refresh_call_state [of e res lib eng dp tc spec e2]
    by (auto simp: runTestCase_unfold [OF O C S I] sp I split: if_splits)
qed

lemma inject_after_spec:
  assumes "(ReadSpecCall e1, Inr ds) \<in> set (fst (runTestCase lib eng dp tc))"
    and "\<not> HasErrors ds" and "Mocks eng (parsedSpec eng tc) \<noteq> []"
  shows "\<exists>ires. (InjectMockedDataCall e1 (Mocks eng (parsedSpec eng tc)), ires)
             \<in> set (fst (runTestCase lib eng dp tc))"
proof -
  obtain e0 d0 where O: "NewContextOptions eng ''.'' (variableFile tc) = (e0, d0)"
    by (cases "NewContextOptions eng ''.'' (variableFile tc)")
  obtain e1' d1 where C: "NewContext eng e0 = (e1', d1)" by (cases "NewContext eng e0")
  obtain spec d2 where S: "ReadSpec eng (specFile tc) e1' = (spec, d2)"
    by (cases "ReadSpec eng (specFile tc) e1'")
  obtain e2 d3 where I: "InjectMockedData eng e1' (Mocks eng spec) = (e2, d3)"
    by (cases "InjectMockedData eng e1' (Mocks eng spec)")
  have sp: "parsedSpec eng tc = spec" by (simp add: parsedSpec_def O C S)
  have nr: "\<And>e. (ReadSpecCall e1, Inr ds) \<notin> set (fst (runTestCase_refresh lib eng dp tc spec e))"
  proof -
    fix e
    obtain f1 g1 where R: "Refresh eng e = (f1, g1)" by (cases "Refresh eng e")
    obtain f2 p g2 where P: "Plan eng f1 = ((f2, p), g2)" by (cases "Plan eng f1") auto
    show "(ReadSpecCall e1, Inr ds) \<notin> set (fst (runTestCase_refresh lib eng dp tc spec e))"
      by (simp add: runTestCase_refresh_unfold [OF R P] split: sum.splits)
  qed
  show ?thesis
    using assms nr
    by (auto simp: runTestCase_unfold [OF O C S I] sp split: if_splits)
qed

text \<open>
  C6. For a test case whose parsed spec declares at least one mocked data source, with
  an engine that injects as specified: no refresh and no plan comes before the mock
  injection; the injection is called as soon as the spec is parsed without errors; and
  on the engine state the refresh is called on, the read of each mocked data source
  returns the mocked result (the last one declared for that type and name) instead of the
  external lookup.
\<close>
theorem mocks_registered_before_refresh:
  assumes "injectsAsSpecified registryOf eng" and "Mocks eng (parsedSpec eng tc) \<noteq> []"
  shows "before ((=) MockInjected) ((=) Refreshed) (stages (fst (runTestCase lib eng dp tc)))
     \<and> before ((=) MockInjected) ((=) Planned) (stages (fst (runTestCase lib eng dp tc)))
     \<and> (\<forall>e1 ds. (ReadSpecCall e1, Inr ds) \<in> set (fst (runTestCase lib eng dp tc))
            \<and> \<not> HasErrors ds \<longrightarrow>
          (\<exists>ires. (InjectMockedDataCall e1 (Mocks eng (parsedSpec eng tc)), ires)
             \<in> set (fst (runTestCase lib eng dp tc))))
     \<and> (\<forall>e res. (RefreshCall e, res) \<in> set (fst (runTestCase lib eng dp tc)) \<longrightarrow>
          (\<forall>m \<in> set (Mocks eng (parsedSpec eng tc)).
             readDataSource (registryOf e) externalLookup (mockAddr m) =
               mockResult (last (filter (\<lambda>m'. mockAddr m' = mockAddr m)
                 (Mocks eng (parsedSpec eng tc))))))"
proof (intro conjI allI impI ballI)
  have p: "prefix (stages (fst (runTestCase lib eng dp tc))) (pipeline True)"
    using stages_runTestCase [of lib eng dp tc] assms(2) by simp
  show "before ((=) MockInjected) ((=) Refreshed) (stages (fst (runTestCase lib eng dp tc)))"
    by (rule before_prefix [OF p]) (simp add: pipeline_def)
  show "before ((=) MockInjected) ((=) Planned) (stages (fst (runTestCase lib eng dp tc)))"
    by (rule before_prefix [OF p]) (simp add: pipeline_def)
next
  fix e1 ds
  assume "(ReadSpecCall e1, Inr ds) \<in> set (fst (runTestCase lib eng dp tc)) \<and> \<not> HasErrors ds"
  then show "\<exists>ires. (InjectMockedDataCall e1 (Mocks eng (parsedSpec eng tc)), ires)
             \<in> set (fst (runTestCase lib eng dp tc))"
    using inject_after_spec [of e1 ds lib eng dp tc] assms(2) by blast
next
  fix e res m
  assume r: "(RefreshCall e, res) \<in> set (fst (runTestCase lib eng dp tc))"
    and m: "m \<in> set (Mocks eng (parsedSpec eng tc))"
  from refresh_after_inject [OF r assms(2)] obtain e1 where
    e: "e = fst (InjectMockedData eng e1 (Mocks eng (parsedSpec eng tc)))" by blast
  have "registryOf e = InjectMockedData_spec (registryOf e1) (Mocks eng (parsedSpec eng tc))"
    using assms(1) e by (simp add: injectsAsSpecified_def)
  then show "readDataSource (registryOf e) externalLookup (mockAddr m) =
      mockResult (last (filter (\<lambda>m'. mockAddr m' = mockAddr m) (Mocks eng (parsedSpec eng tc))))"
    using m by (auto simp: readDataSource_def InjectMockedData_spec_lookup)
qed


theorem mocks_registered_before_refresh_witness:
  "injectsAsSpecified snd sampleEngine
   \<and> Mocks sampleEngine (parsedSpec sampleEngine caseA) = [sampleMock]
   \<and> (RefreshCall (''spec/a/v.tfvars'', [(''aws_ami'', ''ubuntu'') \<mapsto> ''ami-123'']), Inr [])
       \<in> set (fst (runTestCase sampleLib sampleEngine False caseA))
   \<and> readDataSource [(''aws_ami'', ''ubuntu'') \<mapsto> ''ami-123''] (\<lambda>a. ''looked up'')
       (''aws_ami'', ''ubuntu'') = ''ami-123''
   \<and> before ((=) MockInjected) ((=) Refreshed)
       (stages (fst (runTestCase sampleLib sampleEngine False caseA)))"
proof -
  have i: "injectsAsSpecified snd sampleEngine"
    by (simp add: injectsAsSpecified_def sampleEngine_def)
  have m: "Mocks sampleEngine (parsedSpec sampleEngine caseA) = [sampleMock]"
    by (simp add: parsedSpec_def sampleEngine_def caseA_def)
  have ne: "Mocks sampleEngine (parsedSpec sampleEngine caseA) \<noteq> []" using m by simp
  have r: "(RefreshCall (''spec/a/v.tfvars'', [(''aws_ami'', ''ubuntu'') \<mapsto> ''ami-123'']), Inr [])
       \<in> set (fst (runTestCase sampleLib sampleEngine False caseA))"
    by (simp add: sample_run_caseA)
  have a: "mockAddr sampleMock = (''aws_ami'', ''ubuntu'')" "mockResult sampleMock = ''ami-123''"
    by (simp_all add: mockAddr_def sampleMock_def)
  note t = mocks_registered_before_refresh
    [OF i ne, where lib = sampleLib and dp = False and externalLookup = "\<lambda>a. ''looked up''"]
  from t r have "\<forall>m \<in> set (Mocks sampleEngine (parsedSpec sampleEngine caseA)).
      readDataSource (snd (''spec/a/v.tfvars'', [(''aws_ami'', ''ubuntu'') \<mapsto> ''ami-123'']))
        (\<lambda>a. ''looked up'') (mockAddr m) =
      mockResult (last (filter (\<lambda>m'. mockAddr m' = mockAddr m)
        (Mocks sampleEngine (parsedSpec sampleEngine caseA))))"
    by blast
  then have "readDataSource [(''aws_ami'', ''ubuntu'') \<mapsto> ''ami-123''] (\<lambda>a. ''looked up'')
       (''aws_ami'', ''ubuntu'') = ''ami-123''"
    by (simp add: m a)
  then show ?thesis using i m r t by blast
qed

section \<open>Properties of the concurrent run\<close>

lemma runInvD:
  assumes "runInv run cs s"
  shows "cs = map fst (tasks s) @ todo s"
    and "wg s = int (size (filter_mset unfinished (mset (tasks s))))"
    and "mainAt s = Spawning \<Longrightarrow> \<not> chanClosed s"
    and "mainAt s = Spawning \<Longrightarrow> printed s = []"
    and "mainAt s = Spawning \<Longrightarrow> t \<in> set (tasks s) \<Longrightarrow> \<not> delivered t"
    and "chanClosed s \<Longrightarrow> mainAt s = Collecting"
    and "chanClosed s \<Longrightarrow> t \<in> set (tasks s) \<Longrightarrow> \<not> unfinished t"
    and "mainAt s = Collecting \<Longrightarrow> todo s = []"
    and "mainAt s = Collecting \<Longrightarrow>
         exitCode s = (if \<exists>r \<in> set (printed s). HasErrors (report r) then 1 else 0)"
    and "t \<in> set (tasks s) \<Longrightarrow> okTask run t"
    and "image_mset Reported (mset (printed s)) =
         image_mset (\<lambda>t. run (fst t)) (filter_mset delivered (mset (tasks s)))"
    and "okStatus run cs s (status s)"
  using assms unfolding runInv_def by blast+

lemma runInvI:
  assumes "cs = map fst (tasks s) @ todo s"
    and "wg s = int (size (filter_mset unfinished (mset (tasks s))))"
    and "mainAt s = Spawning \<Longrightarrow>
         \<not> chanClosed s \<and> printed s = [] \<and> (\<forall>t \<in> set (tasks s). \<not> delivered t)"
    and "chanClosed s \<Longrightarrow> mainAt s = Collecting \<and> (\<forall>t \<in> set (tasks s). \<not> unfinished t)"
    and "mainAt s = Collecting \<Longrightarrow>
         todo s = []
         \<and> exitCode s = (if \<exists>r \<in> set (printed s). HasErrors (report r) then 1 else 0)"
    and "\<forall>t \<in> set (tasks s). okTask run t"
    and "image_mset Reported (mset (printed s)) =
         image_mset (\<lambda>t. run (fst t)) (filter_mset delivered (mset (tasks s)))"
    and "okStatus run cs s (status s)"
  shows "runInv run cs s"
  using assms unfolding runInv_def by blast

lemma update_split:
  assumes "i < length xs"
  obtains M where "mset xs = add_mset (xs ! i) M" and "mset (xs[i := y]) = add_mset y M"
    and "set xs = insert (xs ! i) (set_mset M)" and "set (xs[i := y]) = insert y (set_mset M)"
proof -
  let ?M = "mset xs - {#xs ! i#}"
  have m: "xs ! i \<in># mset xs" using assms by simp
  have 1: "mset xs = add_mset (xs ! i) ?M" using m by simp
  have 2: "mset (xs[i := y]) = add_mset y ?M" using assms by (simp add: mset_update)
  have 3: "set xs = insert (xs ! i) (set_mset ?M)"
    using 1 by (metis set_mset_mset set_mset_add_mset_insert)
  have 4: "set (xs[i := y]) = insert y (set_mset ?M)"
    using 2 by (metis set_mset_mset set_mset_add_mset_insert)
  show thesis using that 1 2 3 4 by blast
qed

lemma map_fst_update:
  "i < length xs \<Longrightarrow> fst (xs ! i) = a \<Longrightarrow> map fst (xs[i := (a, b)]) = map fst xs"
  by (simp add: map_update list_update_same_conv)

lemma runInv_initial: "runInv run cs (initial cs)"
  by (simp add: runInv_def initial_def)

lemma runInv_Spawn:
  assumes "runInv run cs s" and "step run Spawn s = Some s'"
  shows "runInv run cs s'"
proof -
  from assms(2) obtain tc rest where
    g: "status s = Running" "mainAt s = Spawning" "todo s = tc # rest"
    and s': "s' = s\<lparr>todo := rest, tasks := tasks s @ [(tc, Pending)], wg := wg s + 1\<rparr>"
    by (auto split: if_splits list.splits)
  note I = runInvD [OF assms(1)]
  show ?thesis
    by (rule runInvI) (use I g in \<open>auto simp: s'\<close>)
qed

lemma runInv_Collect:
  assumes "runInv run cs s" and "step run Collect s = Some s'"
  shows "runInv run cs s'"
proof -
  from assms(2) have
    g: "status s = Running" "mainAt s = Spawning" "todo s = []"
    and s': "s' = s\<lparr>mainAt := Collecting, exitCode := 0\<rparr>"
    by (auto split: if_splits)
  note I = runInvD [OF assms(1)]
  show ?thesis
    by (rule runInvI) (use I g in \<open>auto simp: s'\<close>)
qed

lemma runInv_Close:
  assumes "runInv run cs s" and "step run Close s = Some s'"
  shows "runInv run cs s'"
proof -
  from assms(2) have
    g: "status s = Running" "mainAt s = Collecting" "wg s = 0" "\<not> chanClosed s"
    and s': "s' = s\<lparr>chanClosed := True\<rparr>"
    by (auto split: if_splits)
  note I = runInvD [OF assms(1)]
  have "filter_mset unfinished (mset (tasks s)) = {#}"
    using I(2) g(3) by simp
  then have fin: "\<forall>t \<in> set (tasks s). \<not> unfinished t"
    by auto
  show ?thesis
    by (rule runInvI) (use I g fin in \<open>auto simp: s'\<close>)
qed

lemma runInv_Exit:
  assumes "runInv run cs s" and "step run Exit s = Some s'"
  shows "runInv run cs s'"
proof -
  from assms(2) have
    g: "status s = Running" "mainAt s = Collecting" "chanClosed s"
    and s': "s' = s\<lparr>status := Exited (exitCode s)\<rparr>"
    by (auto split: if_splits)
  note I = runInvD [OF assms(1)]
  show ?thesis
    by (rule runInvI) (use I g in \<open>auto simp: s'\<close>)
qed

lemma runInv_Run:
  assumes "runInv run cs s" and "step run (Run i) s = Some s'"
  shows "runInv run cs s'"
proof -
  from assms(2) obtain tc where
    g: "status s = Running" "i < length (tasks s)" "tasks s ! i = (tc, Pending)"
    by (auto split: if_splits prod.splits phase.splits)
  note I = runInvD [OF assms(1)]
  have mem: "(tc, Pending) \<in> set (tasks s)" using g(2,3) by (metis nth_mem)
  then have "fst (tc, Pending) \<in> fst ` set (tasks s)" by (rule imageI)
  then have tc: "tc \<in> set cs" using I(1) by simp
  have nc: "\<not> chanClosed s" using I(7) [OF _ mem] by auto
  show ?thesis
  proof (cases "run tc")
    case (Fatal err)
    then have s': "s' = s\<lparr>status := Aborted err\<rparr>" using assms(2) g by simp
    show ?thesis
      by (rule runInvI) (use I tc Fatal in \<open>auto simp: s'\<close>)
  next
    case (Reported r)
    then have s': "s' = s\<lparr>tasks := (tasks s)[i := (tc, Sending r)]\<rparr>" using assms(2) g by simp
    obtain M where M: "mset (tasks s) = add_mset (tc, Pending) M"
        "mset ((tasks s)[i := (tc, Sending r)]) = add_mset (tc, Sending r) M"
        "set (tasks s) = insert (tc, Pending) (set_mset M)"
        "set ((tasks s)[i := (tc, Sending r)]) = insert (tc, Sending r) (set_mset M)"
      using update_split [OF g(2), of "(tc, Sending r)"] g(3) by metis
    have f: "map fst ((tasks s)[i := (tc, Sending r)]) = map fst (tasks s)"
      using g by (simp add: map_fst_update)
    show ?thesis
      by (rule runInvI) (use I g(1) nc Reported in \<open>auto simp: s' M f\<close>)
  qed
qed

lemma runInv_Send:
  assumes "runInv run cs s" and "step run (Send i) s = Some s'"
  shows "runInv run cs s'"
proof -
  from assms(2) obtain tc r where
    g: "status s = Running" "i < length (tasks s)" "tasks s ! i = (tc, Sending r)"
    by (auto split: if_splits prod.splits phase.splits)
  note I = runInvD [OF assms(1)]
  have mem: "(tc, Sending r) \<in> set (tasks s)" using g(2,3) by (metis nth_mem)
  have nc: "\<not> chanClosed s" using I(7) [OF _ mem] by auto
  have run: "run tc = Reported r" using I(10) [OF mem] by simp
  have c: "mainAt s = Collecting" using assms(2) g nc by (auto split: if_splits)
  obtain M where M: "mset (tasks s) = add_mset (tc, Sending r) M"
      "mset ((tasks s)[i := (tc, Sent)]) = add_mset (tc, Sent) M"
      "set (tasks s) = insert (tc, Sending r) (set_mset M)"
      "set ((tasks s)[i := (tc, Sent)]) = insert (tc, Sent) (set_mset M)"
    using update_split [OF g(2), of "(tc, Sent)"] g(3) by metis
  have f: "map fst ((tasks s)[i := (tc, Sent)]) = map fst (tasks s)"
    using g by (simp add: map_fst_update)
  show ?thesis
  proof (cases "printDiags (report r)")
    case (Inr out)
    then have s': "s' = s\<lparr>tasks := (tasks s)[i := (tc, Sent)],
                    exitCode := (if HasErrors (report r) then 1 else exitCode s),
                    printed := printed s @ [r]\<rparr>"
      using assms(2) g nc c by simp
    show ?thesis
      by (rule runInvI) (use I g(1) nc c run in \<open>auto simp: s' M f\<close>)
  next
    case (Inl e)
    obtain msg where e: "e = Panic msg" by (cases e)
    have s': "s' = s\<lparr>tasks := (tasks s)[i := (tc, Sent)],
                    exitCode := (if HasErrors (report r) then 1 else exitCode s),
                    printed := printed s @ [r], status := Panicked msg\<rparr>"
      using assms(2) g nc c Inl e by simp
    have p: "printDiags (report r) = Inl (Panic msg)" using Inl e by simp
    show ?thesis
      by (rule runInvI) (use I g(1) nc c run p in \<open>auto simp: s' M f\<close>)
  qed
qed

lemma runInv_Done:
  assumes "runInv run cs s" and "step run (Done i) s = Some s'"
  shows "runInv run cs s'"
proof -
  from assms(2) obtain tc where
    g: "status s = Running" "i < length (tasks s)" "tasks s ! i = (tc, Sent)"
    by (auto split: if_splits prod.splits phase.splits)
  note I = runInvD [OF assms(1)]
  have mem: "(tc, Sent) \<in> set (tasks s)" using g(2,3) by (metis nth_mem)
  obtain M where M: "mset (tasks s) = add_mset (tc, Sent) M"
      "mset ((tasks s)[i := (tc, Finished)]) = add_mset (tc, Finished) M"
      "set (tasks s) = insert (tc, Sent) (set_mset M)"
      "set ((tasks s)[i := (tc, Finished)]) = insert (tc, Finished) (set_mset M)"
    using update_split [OF g(2), of "(tc, Finished)"] g(3) by metis
  have w: "0 < wg s" using I(2) by (simp add: M)
  have ok: "\<exists>r. run tc = Reported r" using I(10) [OF mem] by simp
  have nc: "\<not> chanClosed s" using I(7) [OF _ mem] by auto
  have c: "mainAt s = Collecting" using I(5) [OF _ mem] by (cases "mainAt s") auto
  have s': "s' = s\<lparr>tasks := (tasks s)[i := (tc, Finished)], wg := wg s - 1\<rparr>"
    using assms(2) g w by simp
  have f: "map fst ((tasks s)[i := (tc, Finished)]) = map fst (tasks s)"
    using g by (simp add: map_fst_update)
  show ?thesis
    by (rule runInvI) (use I g(1) nc c ok in \<open>auto simp: s' M f\<close>)
qed

lemma runInv_step:
  assumes "runInv run cs s" and "step run l s = Some s'"
  shows "runInv run cs s'"
proof (cases l)
  case Spawn
  then show ?thesis using assms runInv_Spawn by blast
next
  case Collect
  then show ?thesis using assms runInv_Collect by blast
next
  case (Run i)
  then show ?thesis using assms runInv_Run by blast
next
  case (Send i)
  then show ?thesis using assms runInv_Send by blast
next
  case (Done i)
  then show ?thesis using assms runInv_Done by blast
next
  case Close
  then show ?thesis using assms runInv_Close by blast
next
  case Exit
  then show ?thesis using assms runInv_Exit by blast
qed

lemma runInv_exec:
  "runInv run cs s \<Longrightarrow> exec run sched s = Some s' \<Longrightarrow> runInv run cs s'"
proof (induction sched arbitrary: s)
  case Nil
  then show ?case by simp
next
  case (Cons l sched)
  then show ?case by (auto split: option.splits intro: runInv_step)
qed

lemma step_stopped: "status s \<noteq> Running \<Longrightarrow> step run l s = None"
  by (cases l) auto

lemma exec_stopped:
  "status s \<noteq> Running \<Longrightarrow> exec run sched s = Some s' \<Longrightarrow> sched = [] \<and> s' = s"
  by (cases sched) (auto simp: step_stopped simp del: step.simps)

lemma sum_weight_update:
  "i < length xs \<Longrightarrow> xs ! i = (tc, ph) \<Longrightarrow>
   sum_list (map (\<lambda>t. weight (snd t)) (xs[i := (tc', ph')])) + weight ph =
   sum_list (map (\<lambda>t. weight (snd t)) xs) + weight ph'"
proof (induction xs arbitrary: i)
  case Nil
  then show ?case by simp
next
  case (Cons x xs)
  show ?case
  proof (cases i)
    case 0
    then show ?thesis using Cons.prems by simp
  next
    case (Suc j)
    then show ?thesis using Cons.prems Cons.IH [of j] by simp
  qed
qed

lemma step_remaining:
  assumes "step run l s = Some s'"
  shows "remaining s' < remaining s"
proof (cases l)
  case Spawn
  then show ?thesis using assms
    by (auto simp: remaining_def split: if_splits list.splits)
next
  case Collect
  then show ?thesis using assms
    by (auto simp: remaining_def split: if_splits)
next
  case (Run i)
  from assms Run obtain tc where
    g: "status s = Running" "i < length (tasks s)" "tasks s ! i = (tc, Pending)"
    by (auto split: if_splits prod.splits phase.splits)
  show ?thesis
  proof (cases "run tc")
    case (Fatal err)
    then have "s' = s\<lparr>status := Aborted err\<rparr>" using assms Run g by simp
    then show ?thesis using g(1) by (simp add: remaining_def)
  next
    case (Reported r)
    then have "s' = s\<lparr>tasks := (tasks s)[i := (tc, Sending r)]\<rparr>" using assms Run g by simp
    then show ?thesis
      using sum_weight_update [OF g(2,3), of tc "Sending r"] by (simp add: remaining_def)
  qed
next
  case (Send i)
  from assms Send obtain tc r where
    g: "status s = Running" "i < length (tasks s)" "tasks s ! i = (tc, Sending r)"
    by (auto split: if_splits prod.splits phase.splits)
  show ?thesis
  proof (cases "chanClosed s")
    case True
    then have "s' = s\<lparr>status := Panicked ''send on closed channel''\<rparr>"
      using assms Send g by simp
    then show ?thesis using g(1) by (simp add: remaining_def)
  next
    case False
    then have "s' = s\<lparr>tasks := (tasks s)[i := (tc, Sent)],
                    exitCode := (if HasErrors (report r) then 1 else exitCode s),
                    printed := printed s @ [r]\<rparr>
        \<or> (\<exists>msg. s' = s\<lparr>tasks := (tasks s)[i := (tc, Sent)],
                    exitCode := (if HasErrors (report r) then 1 else exitCode s),
                    printed := printed s @ [r], status := Panicked msg\<rparr>)"
      using assms Send g by (auto split: if_splits sum.splits panic.splits)
    then show ?thesis
      using sum_weight_update [OF g(2,3), of tc Sent] by (auto simp: remaining_def)
  qed
next
  case (Done i)
  from assms Done obtain tc where
    g: "status s = Running" "i < length (tasks s)" "tasks s ! i = (tc, Sent)"
    by (auto split: if_splits prod.splits phase.splits)
  show ?thesis
  proof (cases "wg s - 1 < 0")
    case True
    then have "s' = s\<lparr>status := Panicked ''negative WaitGroup counter''\<rparr>"
      using assms Done g by simp
    then show ?thesis using g(1) by (simp add: remaining_def)
  next
    case False
    then have "s' = s\<lparr>tasks := (tasks s)[i := (tc, Finished)], wg := wg s - 1\<rparr>"
      using assms Done g by simp
    then show ?thesis
      using sum_weight_update [OF g(2,3), of tc Finished] by (simp add: remaining_def)
  qed
next
  case Close
  then show ?thesis using assms
    by (auto simp: remaining_def split: if_splits)
next
  case Exit
  then show ?thesis using assms
    by (auto simp: remaining_def split: if_splits)
qed

lemma exec_remaining:
  "exec run sched s = Some s' \<Longrightarrow> remaining s' + length sched \<le> remaining s"
proof (induction sched arbitrary: s)
  case Nil
  then show ?case by simp
next
  case (Cons l sched)
  from Cons.prems obtain s1 where s1: "step run l s = Some s1" "exec run sched s1 = Some s'"
    by (auto split: option.splits)
  have "remaining s1 < remaining s" using s1(1) by (rule step_remaining)
  moreover have "remaining s' + length sched \<le> remaining s1" using s1(2) by (rule Cons.IH)
  ultimately show ?case by simp
qed

lemma remaining_initial: "remaining (initial cs) = 4 * length cs + 3"
  by (simp add: remaining_def initial_def)

lemma progress:
  assumes "runInv run cs s" and "status s = Running"
  shows "\<exists>l s'. step run l s = Some s'"
proof (cases "mainAt s")
  case Spawning
  show ?thesis
  proof (cases "todo s")
    case Nil
    then have "step run Collect s = Some (s\<lparr>mainAt := Collecting, exitCode := 0\<rparr>)"
      using assms(2) Spawning by simp
    then show ?thesis by blast
  next
    case (Cons tc rest)
    then have "step run Spawn s =
        Some (s\<lparr>todo := rest, tasks := tasks s @ [(tc, Pending)], wg := wg s + 1\<rparr>)"
      using assms(2) Spawning by simp
    then show ?thesis by blast
  qed
next
  case Collecting
  note I = runInvD [OF assms(1)]
  show ?thesis
  proof (cases "chanClosed s")
    case True
    then have "step run Exit s = Some (s\<lparr>status := Exited (exitCode s)\<rparr>)"
      using assms(2) Collecting by simp
    then show ?thesis by blast
  next
    case False
    show ?thesis
    proof (cases "wg s = 0")
      case True
      then have "step run Close s = Some (s\<lparr>chanClosed := True\<rparr>)"
        using assms(2) Collecting False by simp
      then show ?thesis by blast
    next
      case nz: False
      then have "filter_mset unfinished (mset (tasks s)) \<noteq> {#}" using I(2) by auto
      then obtain t where t: "t \<in> set (tasks s)" "unfinished t" by auto
      then obtain i where i: "i < length (tasks s)" "tasks s ! i = t"
        by (auto simp: in_set_conv_nth)
      obtain tc ph where tp: "t = (tc, ph)" by (cases t)
      have w: "\<not> wg s - 1 < 0" using I(2) nz by simp
      show ?thesis
      proof (cases ph)
        case Pending
        show ?thesis
        proof (cases "run tc")
          case (Reported r)
          then have "step run (Run i) s = Some (s\<lparr>tasks := (tasks s)[i := (tc, Sending r)]\<rparr>)"
            using assms(2) i tp Pending by simp
          then show ?thesis by blast
        next
          case (Fatal err)
          then have "step run (Run i) s = Some (s\<lparr>status := Aborted err\<rparr>)"
            using assms(2) i tp Pending by simp
          then show ?thesis by blast
        qed
      next
        case (Sending r)
        then have "\<exists>s'. step run (Send i) s = Some s'"
          using assms(2) i tp False Collecting by (simp split: sum.splits panic.splits)
        then show ?thesis by blast
      next
        case Sent
        then have "step run (Done i) s =
            Some (s\<lparr>tasks := (tasks s)[i := (tc, Finished)], wg := wg s - 1\<rparr>)"
          using assms(2) i tp w by simp
        then show ?thesis by blast
      next
        case Finished
        then show ?thesis using t(2) tp by simp
      qed
    qed
  qed
qed

lemma findCases_Inl: "(\<exists>f. findCases lib rootDir = Inl f) \<longleftrightarrow> ReadDir lib rootDir = None"
  by (auto simp: findCases_def Let_def split: option.splits)

lemma main_start_cases:
  obtains (run) cs where "findCases lib rootDir = Inr cs" and "cs \<noteq> []"
      and "main_start lib rootDir = initial cs"
    | (unreadable) err where "ReadDir lib rootDir = None"
      and "main_start lib rootDir = (initial [])\<lparr>status := Aborted err\<rparr>"
    | (empty) err where "findCases lib rootDir = Inr []"
      and "main_start lib rootDir = (initial [])\<lparr>status := Aborted err\<rparr>"
proof (cases "findCases lib rootDir")
  case (Inl f)
  then have r: "ReadDir lib rootDir = None" using findCases_Inl by blast
  obtain err where "f = LogFatal err" by (cases f)
  then have "main_start lib rootDir = (initial [])\<lparr>status := Aborted err\<rparr>"
    using Inl by (simp add: main_start_def)
  then show ?thesis using r unreadable by blast
next
  case (Inr cs)
  show ?thesis
  proof (cases "cs = []")
    case True
    then show ?thesis using Inr empty by (simp add: main_start_def)
  next
    case False
    then show ?thesis using Inr run by (simp add: main_start_def)
  qed
qed

lemma exited_all_reported:
  assumes "runInv run cs s" and "chanClosed s"
  shows "todo s = [] \<and> map fst (tasks s) = cs \<and> (\<forall>t \<in> set (tasks s). snd t = Finished)
     \<and> image_mset Reported (mset (printed s)) = image_mset run (mset cs)"
proof -
  note I = runInvD [OF assms(1)]
  have c: "mainAt s = Collecting" using I(6) assms(2) by simp
  have td: "todo s = []" using I(8) c by simp
  have cs: "map fst (tasks s) = cs" using I(1) td by simp
  have fin: "\<forall>t \<in> set (tasks s). snd t = Finished"
  proof
    fix t assume "t \<in> set (tasks s)"
    then have "\<not> unfinished t" using I(7) assms(2) by blast
    then show "snd t = Finished" by (cases t) simp
  qed
  have "\<forall>t \<in># mset (tasks s). delivered t"
  proof
    fix t assume "t \<in># mset (tasks s)"
    then have "snd t = Finished" using fin by simp
    then show "delivered t" by (cases t) simp
  qed
  then have "filter_mset delivered (mset (tasks s)) = mset (tasks s)"
    by (simp add: filter_mset_eq_conv)
  then have "image_mset Reported (mset (printed s)) = image_mset (\<lambda>t. run (fst t)) (mset (tasks s))"
    using I(11) by simp
  also have "\<dots> = image_mset run (mset (map fst (tasks s)))"
    by (simp add: multiset.map_comp comp_def)
  finally show ?thesis using td cs fin by simp
qed


lemma sample_run_caseOk:
  "caseRun sampleLib sampleEngine False caseOk =
     Reported \<lparr>name = ''ok'', plan = [], report = [matched]\<rparr>"
  by (simp add: caseRun_def runTestCase_def runTestCase_refresh_def logged_def fatalReport_def
      HasErrors_def sampleEngine_def sampleLib_def caseOk_def testCase_name_def matched_def)

lemma sample_caseRun:
  "caseRun sampleLib sampleEngine False caseA =
     Reported \<lparr>name = ''a'', plan = [], report = [matched]\<rparr>"
  "caseRun sampleLib sampleEngine False caseBroken =
     Reported \<lparr>name = ''broken'', plan = [], report = [planFailed]\<rparr>"
  "caseRun sampleLib sampleEngine False caseRoot =
     Reported \<lparr>name = ''spec'', plan = [], report = [matched]\<rparr>"
  "caseRun sampleLib sampleEngine False caseBad = Fatal ''validation failed''"
  by (simp_all add: caseRun_def sample_run_caseA sample_run_caseBroken sample_run_caseRoot
      sample_run_caseBad)

lemma sample_errors: "HasErrors [planFailed]" "\<not> HasErrors [matched]"
  by (simp_all add: HasErrors_def planFailed_def matched_def)

lemma sample_print: "printDiags [planFailed] = Inr []" "printDiags [matched] = Inr [''ami'']"
  by (simp_all add: planFailed_def matched_def formatPath_def)

text \<open>
  The printing of a report with a string as index key panics, and the receive of such a
  report ends the process.
\<close>

lemma sample_print_panic: "printDiags [mismatchAtMapKey] = Inl (Panic ''not a number'')"
  by (simp add: mismatchAtMapKey_def formatPath_def)

lemma sample_receive_panic:
  "step run (Send 0)
     ((initial [])\<lparr>tasks := [(caseA, Sending \<lparr>name = ''a'', plan = [],
          report = [mismatchAtMapKey]\<rparr>)], wg := 1, mainAt := Collecting\<rparr>) =
   Some ((initial [])\<lparr>tasks := [(caseA, Sent)], wg := 1, mainAt := Collecting,
     exitCode := 1,
     printed := [\<lparr>name = ''a'', plan = [], report = [mismatchAtMapKey]\<rparr>],
     status := Panicked ''not a number''\<rparr>)"
proof -
  have e: "HasErrors [mismatchAtMapKey]" by (simp add: HasErrors_def mismatchAtMapKey_def)
  show ?thesis
    by (simp add: initial_def sample_print_panic e del: printDiags.simps)
qed

lemma main_run:
  assumes "main lib eng dp rootDir sched = Some s"
    and "findCases lib rootDir = Inr cs" and "cs \<noteq> []"
  shows "runInv (caseRun lib eng dp) cs s" and "remaining s + length sched \<le> 4 * length cs + 3"
proof -
  have st: "main_start lib rootDir = initial cs" using assms(2,3) by (simp add: main_start_def)
  then have e: "exec (caseRun lib eng dp) sched (initial cs) = Some s"
    using assms(1) by (simp add: main_def)
  show "runInv (caseRun lib eng dp) cs s"
    using runInv_exec [OF runInv_initial e] .
  show "remaining s + length sched \<le> 4 * length cs + 3"
    using exec_remaining [OF e] by (simp add: remaining_initial)
qed

lemma main_no_case:
  assumes "main lib eng dp rootDir sched = Some s"
    and "ReadDir lib rootDir = None \<or> findCases lib rootDir = Inr []"
  shows "sched = [] \<and> tasks s = [] \<and> printed s = [] \<and> \<not> chanClosed s
     \<and> (\<exists>err. status s = Aborted err)"
proof -
  obtain err where st: "main_start lib rootDir = (initial [])\<lparr>status := Aborted err\<rparr>"
  proof (cases rule: main_start_cases [of lib rootDir])
    case (run cs)
    then show ?thesis using assms(2) findCases_Inl [of lib rootDir] by auto
  next
    case (unreadable err)
    then show ?thesis using that by blast
  next
    case (empty err)
    then show ?thesis using that by blast
  qed
  have "status (main_start lib rootDir) \<noteq> Running" using st by simp
  then have "sched = [] \<and> s = main_start lib rootDir"
    using exec_stopped [of "main_start lib rootDir" "caseRun lib eng dp" sched s] assms(1)
    by (simp add: main_def)
  then show ?thesis using st by (simp add: initial_def)
qed

text \<open>
  C2. When \<open>main\<close> ends through \<open>os.Exit(exitCode)\<close>, the report of every
  discovered test case has been received, each once, and the exit code is 1 if one of
  these reports has a diagnostic of severity Error and 0 otherwise. The channel is closed
  only when every goroutine has called \<open>wg.Done\<close>. A run that has not ended can take
  a step, and no run takes more than four steps per test case and three more.
\<close>
theorem exit_code_after_all_reports:
  assumes "main lib eng dp rootDir sched = Some s"
  shows "(chanClosed s \<longrightarrow>
            todo s = [] \<and> (\<forall>t \<in> set (tasks s). snd t = Finished)
            \<and> findCases lib rootDir = Inr (map fst (tasks s)))
     \<and> (\<forall>c. status s = Exited c \<longrightarrow>
            chanClosed s
            \<and> image_mset Reported (mset (printed s)) =
                image_mset (caseRun lib eng dp) (mset (map fst (tasks s)))
            \<and> c = (if \<exists>r \<in> set (printed s). HasErrors (report r) then 1 else 0))
     \<and> (status s = Running \<longrightarrow> (\<exists>l s'. step (caseRun lib eng dp) l s = Some s'))
     \<and> length sched \<le> 4 * (length (tasks s) + length (todo s)) + 3"
proof (cases rule: main_start_cases [of lib rootDir])
  case (run cs)
  note I = main_run [OF assms run(1,2)]
  note D = runInvD [OF I(1)]
  have len: "length cs = length (tasks s) + length (todo s)" using D(1) by simp
  have 1: "chanClosed s \<longrightarrow>
            todo s = [] \<and> (\<forall>t \<in> set (tasks s). snd t = Finished)
            \<and> findCases lib rootDir = Inr (map fst (tasks s))"
    using exited_all_reported [OF I(1)] run(1) by simp
  have 2: "\<forall>c. status s = Exited c \<longrightarrow>
            chanClosed s
            \<and> image_mset Reported (mset (printed s)) =
                image_mset (caseRun lib eng dp) (mset (map fst (tasks s)))
            \<and> c = (if \<exists>r \<in> set (printed s). HasErrors (report r) then 1 else 0)"
  proof (intro allI impI)
    fix c assume ex: "status s = Exited c"
    then have cl: "chanClosed s" and c: "c = exitCode s" using D(12) by simp_all
    have "mainAt s = Collecting" using D(6) cl by simp
    then have "exitCode s = (if \<exists>r \<in> set (printed s). HasErrors (report r) then 1 else 0)"
      using D(9) by simp
    then show "chanClosed s
            \<and> image_mset Reported (mset (printed s)) =
                image_mset (caseRun lib eng dp) (mset (map fst (tasks s)))
            \<and> c = (if \<exists>r \<in> set (printed s). HasErrors (report r) then 1 else 0)"
      using exited_all_reported [OF I(1) cl] cl c by simp
  qed
  have 3: "status s = Running \<longrightarrow> (\<exists>l s'. step (caseRun lib eng dp) l s = Some s')"
    using progress [OF I(1)] by blast
  have 4: "length sched \<le> 4 * (length (tasks s) + length (todo s)) + 3"
    using I(2) len by simp
  show ?thesis using 1 2 3 4 by blast
next
  case (unreadable err)
  then show ?thesis using main_no_case [OF assms] by auto
next
  case (empty err)
  then show ?thesis using main_no_case [OF assms] by auto
qed


lemma sample_main_start_spec:
  "main_start sampleLib ''spec'' = initial [caseA, caseBroken, caseRoot]"
  by (simp add: main_start_def sample_findCases_spec)

lemma sample_main_start_bad: "main_start sampleLib ''bad'' = initial [caseOk, caseBad]"
  by (simp add: main_start_def sample_findCases_bad)

lemma sample_main_spec:
  "main sampleLib sampleEngine False ''spec''
     [Spawn, Spawn, Run 0, Spawn, Collect, Run 2, Send 2, Run 1, Done 2, Send 1, Send 0,
      Done 0, Done 1, Close, Exit] =
   Some \<lparr>todo = [], tasks = [(caseA, Finished), (caseBroken, Finished), (caseRoot, Finished)],
         wg = 0, mainAt = Collecting, chanClosed = True, exitCode = 1,
         printed = [\<lparr>name = ''spec'', plan = [], report = [matched]\<rparr>,
                    \<lparr>name = ''broken'', plan = [], report = [planFailed]\<rparr>,
                    \<lparr>name = ''a'', plan = [], report = [matched]\<rparr>],
         status = Exited 1\<rparr>"
  by (simp add: main_def sample_main_start_spec initial_def sample_caseRun sample_errors
      sample_print del: printDiags.simps)

theorem exit_code_after_all_reports_witness:
  "main sampleLib sampleEngine False ''spec''
     [Spawn, Spawn, Run 0, Spawn, Collect, Run 2, Send 2, Run 1, Done 2, Send 1, Send 0,
      Done 0, Done 1, Close, Exit] =
   Some \<lparr>todo = [], tasks = [(caseA, Finished), (caseBroken, Finished), (caseRoot, Finished)],
         wg = 0, mainAt = Collecting, chanClosed = True, exitCode = 1,
         printed = [\<lparr>name = ''spec'', plan = [], report = [matched]\<rparr>,
                    \<lparr>name = ''broken'', plan = [], report = [planFailed]\<rparr>,
                    \<lparr>name = ''a'', plan = [], report = [matched]\<rparr>],
         status = Exited 1\<rparr>
   \<and> findCases sampleLib ''spec'' = Inr [caseA, caseBroken, caseRoot]
   \<and> (1::int) = (if \<exists>r \<in> set [\<lparr>name = ''spec'', plan = [], report = [matched]\<rparr>,
                    \<lparr>name = ''broken'', plan = [], report = [planFailed]\<rparr>,
                    \<lparr>name = ''a'', plan = [], report = [matched]\<rparr>]. HasErrors (report r)
                  then 1 else 0)"
  using exit_code_after_all_reports [OF sample_main_spec] sample_main_spec
  by simp






lemma sample_main_bad_pre:
  "main sampleLib sampleEngine False ''bad'' [Spawn, Spawn] =
     Some \<lparr>todo = [], tasks = [(caseOk, Pending), (caseBad, Pending)], wg = 2,
           mainAt = Spawning, chanClosed = False, exitCode = 0, printed = [],
           status = Running\<rparr>"
  by (simp add: main_def sample_main_start_bad initial_def)




text \<open>
  C8 fails on a test case whose \<open>Validate\<close> returns a non-nil error. In the sample
  directory \<open>bad\<close>, the goroutine of scenario \<open>ok\<close> is blocked in the send of its
  report when the goroutine of the root scenario calls \<open>log.Fatal\<close>: the process ends,
  the root scenario has produced no report, and the report of \<open>ok\<close> is never received.
\<close>
theorem validation_error_leaves_no_report:
  "findCases sampleLib ''bad'' = Inr [caseOk, caseBad]
   \<and> caseRun sampleLib sampleEngine False caseBad = Fatal ''validation failed''
   \<and> main sampleLib sampleEngine False ''bad'' [Spawn, Spawn, Collect, Run 0, Run 1] =
       Some \<lparr>todo = [],
             tasks = [(caseOk, Sending \<lparr>name = ''ok'', plan = [], report = [matched]\<rparr>),
                      (caseBad, Pending)],
             wg = 2, mainAt = Collecting, chanClosed = False, exitCode = 0, printed = [],
             status = Aborted ''validation failed''\<rparr>
   \<and> main sampleLib sampleEngine False ''bad'' [Spawn, Spawn, Collect, Run 0, Run 1, Send 0] =
       None"
  by (simp add: sample_findCases_bad sample_caseRun sample_run_caseOk main_def
      sample_main_start_bad initial_def)

end
